theory Spec2Isabelle
  imports Complex_Main "HOL-Library.Word" "HOL-Library.Log_Nat"
begin

unbundle bit_operations_syntax

section \<open>Data model of the streaming client (cloud-stt.h, cloud-stt.cpp)\<close>

text \<open>
  The client \<^verbatim>\<open>GoogleSttStreamer\<close> is modelled by explicit state passing: a record of
  its members, and one HOL function per member function, taking the state and returning
  the new one.  Members keep their names without the trailing underscore of the source
  (\<^verbatim>\<open>running_\<close> is \<open>running\<close>).  Everything a member function reads from outside the
  object (the clock, the outcome of a network call) is an argument of its model.
  Everything it does to the outside (a request written to the stream, a callback into the
  host, a thread started or joined) is appended, in program order, to the field
  \<open>effects\<close>.  Calls of \<^verbatim>\<open>obs_log\<close> are left out.
\<close>

type_synonym f32 = "32 word"  \<comment> \<open>\<^verbatim>\<open>float\<close>: the bit pattern of an IEEE 754 binary32 value\<close>
type_synonym s16 = "16 word"  \<comment> \<open>\<^verbatim>\<open>int16_t\<close>, read with \<open>sint\<close>\<close>
type_synonym u64 = "64 word"  \<comment> \<open>\<^verbatim>\<open>uint64_t\<close>\<close>
type_synonym tid = nat        \<comment> \<open>\<^verbatim>\<open>std::thread::id\<close>\<close>

text \<open>
  The result type handed to the host, declared in transcription-filter-data.h.  Only the
  enumerators and fields that cloud-stt.cpp uses are modelled; \<open>DETECTION_RESULT_UNKNOWN\<close>
  is the enumerator of value 0 that \<^verbatim>\<open>DetectionResultWithText out{}\<close> starts from.
\<close>

datatype DetectionResult =
  DETECTION_RESULT_UNKNOWN | DETECTION_RESULT_SPEECH | DETECTION_RESULT_PARTIAL

record DetectionResultWithText =
  result :: DetectionResult
  text' :: string  \<comment> \<open>the member \<^verbatim>\<open>text\<close>\<close>
  language :: string
  start_timestamp_ms :: u64
  end_timestamp_ms :: u64

definition out_init :: DetectionResultWithText where
  "out_init = \<lparr>result = DETECTION_RESULT_UNKNOWN, text' = [], language = [],
     start_timestamp_ms = 0, end_timestamp_ms = 0\<rparr>"

text \<open>
  The two members of the host's \<^verbatim>\<open>transcription_filter_data\<close> that the client reads;
  \<open>whisper_params_language\<close> is the C string \<^verbatim>\<open>whisper_params.language\<close>, \<open>None\<close> when the
  pointer is null.
\<close>

record transcription_filter_data =
  cloud_transcription_language :: string
  whisper_params_language :: "string option"

text \<open>The messages of the remote protocol, as far as the client fills or reads them.\<close>

datatype AudioEncoding = ENCODING_UNSPECIFIED | LINEAR16

record RecognitionConfig =
  cfg_language_code :: string
  sample_rate_hertz :: int
  audio_channel_count :: int
  encoding :: AudioEncoding
  enable_automatic_punctuation :: bool

record StreamingRecognitionConfig =
  config :: RecognitionConfig
  interim_results :: bool
  single_utterance :: bool

datatype StreamingRecognizeRequest =
  streaming_config StreamingRecognitionConfig
| audio_content "s16 list"
    \<comment> \<open>the samples of one frame; on the wire they are the bytes of the \<^verbatim>\<open>int16_t\<close> array\<close>

record SpeechRecognitionResult =
  alternatives :: "string list"  \<comment> \<open>the transcript of each alternative, best first\<close>
  is_final :: bool

type_synonym StreamingRecognizeResponse = "SpeechRecognitionResult list"

text \<open>What the client does to the outside world.\<close>

datatype event =
  Write StreamingRecognizeRequest bool
    \<comment> \<open>\<^verbatim>\<open>impl_->stream->Write(req)\<close> and what it returned\<close>
| WritesDone
| TryCancel
| Finish "string option"
    \<comment> \<open>\<^verbatim>\<open>impl_->stream->Finish()\<close>: \<open>None\<close> for an OK status, else the error message\<close>
| set_text_callback u64 transcription_filter_data DetectionResultWithText
| SpawnReader          \<comment> \<open>\<^verbatim>\<open>reader_ = std::thread(&GoogleSttStreamer::resultsThread, this)\<close>\<close>
| JoinReader
| SpawnRotator tid     \<comment> \<open>\<^verbatim>\<open>rotator_ = std::thread(&GoogleSttStreamer::doRotate, this)\<close>\<close>
| JoinRotator tid
| DetachRotator tid

text \<open>
  \<^verbatim>\<open>struct Impl\<close>: \<open>stream\<close> tells whether the \<^verbatim>\<open>unique_ptr\<close> \<^verbatim>\<open>stream\<close> holds a
  stream, \<open>metadata\<close> is what was added to the client context.  Channel and stub are
  always created together with the object and carry no state of their own here.
\<close>

record Impl =
  stream :: bool
  metadata :: "(string \<times> string) list"

record GoogleSttStreamer =
  gf :: "transcription_filter_data option"  \<comment> \<open>the host's data; \<open>None\<close> is a null pointer\<close>
  pending :: "f32 list"                     \<comment> \<open>\<^verbatim>\<open>std::deque<float>\<close>, front first\<close>
  reader :: bool                            \<comment> \<open>\<^verbatim>\<open>reader_.joinable()\<close>\<close>
  running :: bool
  impl :: "Impl option"                     \<comment> \<open>\<^verbatim>\<open>std::unique_ptr<Impl>\<close>\<close>
  sent_samples :: u64
  language_code :: string
  api_key :: string
  rotating :: bool
  rotator :: "tid option"                   \<comment> \<open>the id of \<^verbatim>\<open>rotator_\<close> while it is joinable\<close>
  start_ms :: u64
  rotate_interval_ms :: u64
  effects :: "event list"

definition emit :: "event list \<Rightarrow> GoogleSttStreamer \<Rightarrow> GoogleSttStreamer" where
  "emit es s = s\<lparr>effects := effects s @ es\<rparr>"

text \<open>The object as the constructor leaves it.\<close>

definition GoogleSttStreamer_init :: "transcription_filter_data option \<Rightarrow> GoogleSttStreamer" where
  "GoogleSttStreamer_init g =
     \<lparr>gf = g, pending = [], reader = False, running = False, impl = None,
      sent_samples = 0, language_code = [], api_key = [], rotating = False,
      rotator = None, start_ms = 0, rotate_interval_ms = 240000, effects = []\<rparr>"

section \<open>The audio encoder\<close>

text \<open>
  A \<^verbatim>\<open>float\<close> is its 32 bits: sign, eight bits of exponent, 23 bits of fraction.
  \<open>valof\<close> reads them as IEEE 754 says: a finite real, an infinity (\<open>Infinity True\<close> is
  the negative one) or a NaN.  Both zeros are \<open>Finite 0\<close>.
\<close>

datatype fval = NaN | Infinity bool | Finite real

definition valof :: "f32 \<Rightarrow> fval" where
  "valof x =
     (let sg = (if bit x 31 then - 1 else 1 :: real);
          e = unat (drop_bit 23 x AND 0xFF);
          m = unat (x AND 0x7FFFFF)
      in if e = 255 then (if m = 0 then Infinity (bit x 31) else NaN)
         else if e = 0 then Finite (sg * real m * 2 powi (- 149))
         else Finite (sg * real (2 ^ 23 + m) * 2 powi (int e - 150)))"

text \<open>The comparison \<^verbatim>\<open><\<close> of two floats; it is false when either is a NaN.\<close>

fun fval_less :: "fval \<Rightarrow> fval \<Rightarrow> bool" where
  "fval_less NaN _ = False"
| "fval_less _ NaN = False"
| "fval_less (Infinity n) (Infinity n') = (n \<and> \<not> n')"
| "fval_less (Infinity n) (Finite _) = n"
| "fval_less (Finite _) (Infinity n) = (\<not> n)"
| "fval_less (Finite a) (Finite b) = (a < b)"

text \<open>
  Rounding a real to the nearest binary32 value, ties to the even significand (the
  default rounding mode).  The unit in the last place of \<open>y\<close> is \<open>2 powi ulp_exponent y\<close>:
  \<open>2 powi (- 149)\<close> for a subnormal \<open>y\<close> and in the lowest normal binade, and 23 binary
  places below the leading bit of \<open>y\<close> from there on.
\<close>

definition ulp_exponent :: "real \<Rightarrow> int" where
  "ulp_exponent y = max (bitlen \<lfloor>\<bar>y\<bar> * 2 ^ 149\<rfloor>) 24 - 173"

definition round_half_even :: "real \<Rightarrow> int" where
  "round_half_even r =
     (let f = \<lfloor>r\<rfloor> in
        if r - of_int f < 1 / 2 then f
        else if 1 / 2 < r - of_int f then f + 1
        else if even f then f else f + 1)"

definition rnd32 :: "real \<Rightarrow> real" where
  "rnd32 y = (let e = ulp_exponent y
              in sgn y * (of_int (round_half_even (\<bar>y\<bar> / 2 powi e)) * 2 powi e))"

definition fround :: "real \<Rightarrow> fval" where
  "fround y = (let r = rnd32 y in if 2 ^ 128 \<le> \<bar>r\<bar> then Infinity (y < 0) else Finite r)"

text \<open>The product \<^verbatim>\<open>a * b\<close> of two floats.\<close>

fun fmul :: "fval \<Rightarrow> fval \<Rightarrow> fval" where
  "fmul NaN _ = NaN"
| "fmul _ NaN = NaN"
| "fmul (Infinity n) (Infinity n') = Infinity (n \<noteq> n')"
| "fmul (Infinity n) (Finite b) = (if b = 0 then NaN else Infinity (n \<noteq> (b < 0)))"
| "fmul (Finite a) (Infinity n) = (if a = 0 then NaN else Infinity ((a < 0) \<noteq> n))"
| "fmul (Finite a) (Finite b) = fround (a * b)"

text \<open>
  \<^verbatim>\<open>std::lroundf\<close> rounds to the nearest integer, halfway cases away from zero.  ISO C
  fixes its value only where the rounded value fits \<^verbatim>\<open>long\<close>, which has at least 32
  bits; for every other argument (a NaN, an infinity, a value beyond that range) the result
  is what the platform's library returns, the parameter \<open>other\<close>.
\<close>

definition round_half_away :: "real \<Rightarrow> int" where
  "round_half_away r = (if 0 \<le> r then \<lfloor>r + 1 / 2\<rfloor> else - \<lfloor>- r + 1 / 2\<rfloor>)"

definition lroundf :: "(fval \<Rightarrow> int) \<Rightarrow> fval \<Rightarrow> int" where
  "lroundf other v =
     (case v of
        Finite r \<Rightarrow>
          (if - (2 ^ 31) \<le> round_half_away r \<and> round_half_away r < 2 ^ 31
           then round_half_away r else other v)
      | _ \<Rightarrow> other v)"

text \<open>
  \<^verbatim>\<open>f32_to_s16\<close> (lines 28 to 36): the two clamping assignments to \<^verbatim>\<open>x\<close>, the float
  product with \<^verbatim>\<open>32767.0f\<close>, \<^verbatim>\<open>lroundf\<close>, and the conversion of the \<^verbatim>\<open>long\<close> to
  \<^verbatim>\<open>int16_t\<close>, which keeps the low 16 bits.
\<close>

definition f32_to_s16 :: "(fval \<Rightarrow> int) \<Rightarrow> f32 \<Rightarrow> s16" where
  "f32_to_s16 other x =
     (let x0 = valof x;
          x1 = (if fval_less (Finite 1) x0 then Finite 1 else x0);
          x2 = (if fval_less x1 (Finite (- 1)) then Finite (- 1) else x1)
      in word_of_int (lroundf other (fmul x2 (Finite 32767))))"



text \<open>
  Two abbreviations for the proofs: the real value a float has after the two clamping
  assignments, and the integer the encoder makes of a real in \<open>[-1, 1]\<close>.
\<close>

definition cl :: "fval \<Rightarrow> real" where
  "cl v = (case v of NaN \<Rightarrow> 0 | Infinity n \<Rightarrow> (if n then - 1 else 1)
           | Finite a \<Rightarrow> max (- 1) (min 1 a))"

definition enc_int :: "real \<Rightarrow> int" where
  "enc_int r = round_half_away (rnd32 (r * 32767))"

section \<open>start and stop\<close>

text \<open>
  What \<^verbatim>\<open>start\<close> reads from outside: the clock at line 57, whether
  \<^verbatim>\<open>StreamingRecognize\<close> returned a stream (line 65), what the write of the
  configuration returned (line 83), and the clock at line 91.
\<close>

record start_env =
  now_start :: u64
  stream_created :: bool
  config_write_ok :: bool
  now_error :: u64

definition cfgReq :: "string \<Rightarrow> StreamingRecognizeRequest" where
  "cfgReq lang = streaming_config
     \<lparr>config = \<lparr>cfg_language_code = lang, sample_rate_hertz = 16000,
                 audio_channel_count = 1, encoding = LINEAR16,
                 enable_automatic_punctuation = True\<rparr>,
      interim_results = True, single_utterance = False\<rparr>"

definition config_error_result :: "u64 \<Rightarrow> DetectionResultWithText" where
  "config_error_result t = out_init
     \<lparr>text' := ''CloudSTT error: failed to write config (check API key/billing).'',
      result := DETECTION_RESULT_PARTIAL,
      language := ''en'',
      start_timestamp_ms := t, end_timestamp_ms := t\<rparr>"

text \<open>
  \<^verbatim>\<open>start\<close> returns \<open>None\<close> where the C++ program ends in \<^verbatim>\<open>std::terminate\<close>: line 100
  assigns a new thread to \<^verbatim>\<open>reader_\<close>, which the standard library answers with
  \<^verbatim>\<open>std::terminate\<close> when \<^verbatim>\<open>reader_\<close> is still joinable.  Otherwise it returns the
  \<^verbatim>\<open>bool\<close> of the source and the new state.
\<close>

definition start ::
  "start_env \<Rightarrow> string \<Rightarrow> string \<Rightarrow> GoogleSttStreamer \<Rightarrow> (bool \<times> GoogleSttStreamer) option" where
  "start env key lang s =
     (if running s then Some (True, s)
      else
        let s1 = s\<lparr>api_key := key, language_code := lang, start_ms := now_start env,
                   impl := Some \<lparr>stream = stream_created env,
                                 metadata = [(''x-goog-api-key'', key)]\<rparr>\<rparr>
        in
          if \<not> stream_created env then Some (False, s1)
          else
            let s2 = emit [Write (cfgReq lang) (config_write_ok env)] s1 in
              if \<not> config_write_ok env then
                let s3 = (case gf s2 of
                            None \<Rightarrow> s2
                          | Some g \<Rightarrow>
                              emit [set_text_callback (now_error env) g
                                      (config_error_result (now_error env))] s2)
                in Some (False, s3\<lparr>impl := None\<rparr>)
              else
                let s3 = s2\<lparr>running := True\<rparr> in
                  if reader s3 then None
                  else Some (True, emit [SpawnReader] (s3\<lparr>reader := True\<rparr>)))"

text \<open>
  \<^verbatim>\<open>stop\<close>.  The join of line 117 returns once the reader thread has ended; what that
  thread does until then is the function \<open>resultsThread\<close> below.
\<close>

definition stop :: "GoogleSttStreamer \<Rightarrow> GoogleSttStreamer" where
  "stop s =
     (let s1 = s\<lparr>running := False\<rparr>;
          s2 = (case impl s1 of
                  Some i \<Rightarrow> if stream i then emit [WritesDone, TryCancel] s1 else s1
                | None \<Rightarrow> s1);
          s3 = (if reader s2 then emit [JoinReader] (s2\<lparr>reader := False\<rparr>) else s2)
      in s3\<lparr>impl := None, pending := []\<rparr>)"

text \<open>
  Two readings of the effect log: what a call added to it, and the callbacks among a list
  of effects, in order.
\<close>

definition new_effects :: "GoogleSttStreamer \<Rightarrow> GoogleSttStreamer \<Rightarrow> event list" where
  "new_effects s s' = drop (length (effects s)) (effects s')"

fun callbacks :: "event list \<Rightarrow> DetectionResultWithText list" where
  "callbacks [] = []"
| "callbacks (set_text_callback t g r # es) = r # callbacks es"
| "callbacks (e # es) = callbacks es"

section \<open>Rotation\<close>

text \<open>\<^verbatim>\<open>shouldRotate\<close>, with the clock reading as argument; the subtraction wraps.\<close>

definition shouldRotate :: "u64 \<Rightarrow> GoogleSttStreamer \<Rightarrow> bool" where
  "shouldRotate now_ms s = (running s \<and> rotate_interval_ms s < now_ms - start_ms s)"

text \<open>
  \<^verbatim>\<open>requestRotate\<close>.  \<open>self\<close> is the id of the calling thread, \<open>new\<close> the id of the
  thread made at line 139.  The compare-and-exchange of line 130 is one step: it finds the
  flag set and the call returns, or it sets the flag.
\<close>

definition requestRotate :: "tid \<Rightarrow> tid \<Rightarrow> GoogleSttStreamer \<Rightarrow> GoogleSttStreamer" where
  "requestRotate self new s =
     (if rotating s then s
      else
        let s1 = s\<lparr>rotating := True\<rparr>;
            s2 = (case rotator s1 of
                    None \<Rightarrow> s1
                  | Some r \<Rightarrow>
                      if self \<noteq> r then emit [JoinRotator r] (s1\<lparr>rotator := None\<rparr>)
                      else emit [DetachRotator r] (s1\<lparr>rotator := None\<rparr>))
        in emit [SpawnRotator new] (s2\<lparr>rotator := Some new\<rparr>))"

text \<open>
  \<^verbatim>\<open>doRotate\<close>, the body of the rotation thread, and its last statement on its own.
  The result is \<open>None\<close> where \<^verbatim>\<open>start\<close> ends the program.
\<close>

definition clear_rotating :: "GoogleSttStreamer \<Rightarrow> GoogleSttStreamer" where
  "clear_rotating s = s\<lparr>rotating := False\<rparr>"

definition doRotate :: "start_env \<Rightarrow> GoogleSttStreamer \<Rightarrow> GoogleSttStreamer option" where
  "doRotate env s =
     (let s1 = stop s in
        case start env (api_key s1) (language_code s1) s1 of
          None \<Rightarrow> None
        | Some (ok, s2) \<Rightarrow> Some (clear_rotating s2))"

section \<open>pushFloat16k\<close>

definition CHUNK :: nat where
  "CHUNK = 1600"

text \<open>
  The loop of lines 169 to 176, run under the lock: while the buffer holds a full chunk,
  encode its first \<open>CHUNK\<close> samples, erase them, append the frame to
  \<^verbatim>\<open>chunks_to_send\<close> and add \<open>CHUNK\<close> to the counter (which wraps at 64 bits).
\<close>

function drain ::
  "(fval \<Rightarrow> int) \<Rightarrow> f32 list \<Rightarrow> s16 list list \<Rightarrow> u64 \<Rightarrow> f32 list \<times> s16 list list \<times> u64" where
  "drain other p chunks_to_send sent =
     (if CHUNK \<le> length p
      then drain other (drop CHUNK p)
             (chunks_to_send @ [map (f32_to_s16 other) (take CHUNK p)])
             (sent + of_nat CHUNK)
      else (p, chunks_to_send, sent))"
  by pat_completeness auto
termination
  by (relation "measure (\<lambda>(other, p, c, sent). length p)") (auto simp: CHUNK_def)

declare drain.simps [simp del]

text \<open>
  The loop of lines 179 to 193 over \<^verbatim>\<open>chunks_to_send\<close>.  \<open>write_ok k\<close> is what the
  \<open>k\<close>-th call of \<^verbatim>\<open>Write\<close> in this call of \<^verbatim>\<open>pushFloat16k\<close> returns.
\<close>

fun send_chunks :: "(nat \<Rightarrow> bool) \<Rightarrow> nat \<Rightarrow> s16 list list \<Rightarrow> GoogleSttStreamer \<Rightarrow> GoogleSttStreamer" where
  "send_chunks write_ok k [] s = s"
| "send_chunks write_ok k (c # cs) s =
     (case impl s of
        None \<Rightarrow> s\<lparr>running := False\<rparr>
      | Some i \<Rightarrow>
          if \<not> stream i then s\<lparr>running := False\<rparr>
          else if \<not> write_ok k then (emit [Write (audio_content c) False] s)\<lparr>running := False\<rparr>
          else send_chunks write_ok (Suc k) cs (emit [Write (audio_content c) True] s))"

text \<open>
  What \<^verbatim>\<open>pushFloat16k\<close> reads from outside: the clock (in \<^verbatim>\<open>shouldRotate\<close>), the id of
  the calling thread and of the thread a rotation request makes, and the outcomes of its
  writes.
\<close>

record push_env =
  now :: u64
  caller :: tid
  new_thread :: tid
  write_ok :: "nat \<Rightarrow> bool"

text \<open>
  \<^verbatim>\<open>pushFloat16k(data, n)\<close>.  The argument is \<open>None\<close> for a null pointer and \<open>Some xs\<close>
  for a pointer to the \<open>n = length xs\<close> samples \<open>xs\<close>.
\<close>

definition pushFloat16k ::
  "(fval \<Rightarrow> int) \<Rightarrow> push_env \<Rightarrow> f32 list option \<Rightarrow> GoogleSttStreamer \<Rightarrow> GoogleSttStreamer" where
  "pushFloat16k other env data s =
     (case data of
        None \<Rightarrow> s
      | Some xs \<Rightarrow>
          if \<not> running s \<or> length xs = 0 then s
          else
            let s1 = (if shouldRotate (now env) s
                      then requestRotate (caller env) (new_thread env) s else s)
            in
              if rotating s1 then s1
              else
                let (p, chunks_to_send, sent) =
                      drain other (pending s1 @ xs) [] (sent_samples s1);
                    s2 = s1\<lparr>pending := p, sent_samples := sent\<rparr>
                in send_chunks (write_ok env) 0 chunks_to_send s2)"

text \<open>A sequence of calls of \<^verbatim>\<open>pushFloat16k\<close>, each with its surroundings.\<close>

fun push_all ::
  "(fval \<Rightarrow> int) \<Rightarrow> (push_env \<times> f32 list option) list \<Rightarrow> GoogleSttStreamer \<Rightarrow> GoogleSttStreamer" where
  "push_all other [] s = s"
| "push_all other ((env, data) # calls) s = push_all other calls (pushFloat16k other env data s)"

text \<open>
  The words of the specification about framing: frame number \<open>i\<close> of a sample sequence
  is its samples from position \<open>i * CHUNK\<close> up to \<open>(i + 1) * CHUNK\<close>, and there are as many
  frames as whole chunks.
\<close>

definition frames_of :: "'a list \<Rightarrow> 'a list list" where
  "frames_of xs = map (\<lambda>i. take CHUNK (drop (i * CHUNK) xs)) [0 ..< length xs div CHUNK]"

definition audio_writes :: "(fval \<Rightarrow> int) \<Rightarrow> f32 list \<Rightarrow> event list" where
  "audio_writes other xs =
     map (\<lambda>c. Write (audio_content (map (f32_to_s16 other) c)) True) (frames_of xs)"

text \<open>
  Readings of the effect log and of a sequence of calls: the requests passed to
  \<^verbatim>\<open>Write\<close>, in order, and the samples that a sequence of calls hands over (a call with a
  null pointer hands over none).
\<close>

fun written :: "event list \<Rightarrow> StreamingRecognizeRequest list" where
  "written [] = []"
| "written (Write req ok # es) = req # written es"
| "written (e # es) = written es"

fun pushed :: "(push_env \<times> f32 list option) list \<Rightarrow> f32 list" where
  "pushed [] = []"
| "pushed ((env, None) # calls) = pushed calls"
| "pushed ((env, Some xs) # calls) = xs @ pushed calls"

text \<open>
  Two abbreviations for the proofs.  \<open>drained other xs s\<close> is the client after the locked
  block of a call that appends \<open>xs\<close>: the whole chunks are gone from the buffer and counted.
  \<open>after_pushes other xs s\<close> is that client with all its frames written successfully.
\<close>

definition drained :: "(fval \<Rightarrow> int) \<Rightarrow> f32 list \<Rightarrow> GoogleSttStreamer \<Rightarrow> GoogleSttStreamer" where
  "drained other xs s =
     s\<lparr>pending := drop (CHUNK * (length (pending s @ xs) div CHUNK)) (pending s @ xs),
       sent_samples := sent_samples s + of_nat (CHUNK * (length (pending s @ xs) div CHUNK))\<rparr>"

definition after_pushes :: "(fval \<Rightarrow> int) \<Rightarrow> f32 list \<Rightarrow> GoogleSttStreamer \<Rightarrow> GoogleSttStreamer" where
  "after_pushes other xs s = emit (audio_writes other (pending s @ xs)) (drained other xs s)"

section \<open>The result consumer\<close>

text \<open>
  The \<^verbatim>\<open>for\<close> loop of lines 207 to 213 over the results of one response, with its two
  variables \<^verbatim>\<open>text\<close> and \<^verbatim>\<open>is_final\<close>.
\<close>

fun collect_results :: "SpeechRecognitionResult list \<Rightarrow> string \<Rightarrow> bool \<Rightarrow> string \<times> bool" where
  "collect_results [] txt fin = (txt, fin)"
| "collect_results (r # rs) txt fin =
     collect_results rs
       (case alternatives r of [] \<Rightarrow> txt | a # _ \<Rightarrow> txt @ a)
       (if is_final r then True else fin)"

text \<open>The specification's "top alternative's transcript" of a result; empty if it has none.\<close>

definition top_transcript :: "SpeechRecognitionResult \<Rightarrow> string" where
  "top_transcript r = (case alternatives r of [] \<Rightarrow> [] | a # _ \<Rightarrow> a)"

text \<open>
  The body of the \<^verbatim>\<open>while\<close> loop (lines 204 to 234) for one response: \<open>host\<close> is what
  \<^verbatim>\<open>gf_\<close> points to, \<open>t\<close> the clock reading of line 230.
\<close>

definition on_response ::
  "transcription_filter_data option \<Rightarrow> u64 \<Rightarrow> StreamingRecognizeResponse \<Rightarrow> event list" where
  "on_response host t resp =
     (let (txt, fin) = collect_results resp [] False in
        if txt \<noteq> [] then
          (case host of
             None \<Rightarrow> []
           | Some g \<Rightarrow>
               [set_text_callback t g
                  (out_init
                     \<lparr>text' := txt,
                      result := (if fin then DETECTION_RESULT_SPEECH
                                 else DETECTION_RESULT_PARTIAL),
                      language :=
                        (if cloud_transcription_language g \<noteq> []
                         then cloud_transcription_language g
                         else (case whisper_params_language g of
                                 Some l \<Rightarrow> if 0 < length l then l else ''en''
                               | None \<Rightarrow> ''en'')),
                      start_timestamp_ms := 0,
                      end_timestamp_ms := t\<rparr>)])
        else [])"

text \<open>
  The \<^verbatim>\<open>while\<close> loop: each element of the list is a response that \<^verbatim>\<open>Read\<close> delivers,
  with the clock reading taken while it is handled; at the end of the list \<^verbatim>\<open>Read\<close>
  returns false.
\<close>

fun read_loop ::
  "(StreamingRecognizeResponse \<times> u64) list \<Rightarrow> GoogleSttStreamer \<Rightarrow> GoogleSttStreamer" where
  "read_loop [] s = s"
| "read_loop ((resp, t) # rest) s =
     (if running s then read_loop rest (emit (on_response (gf s) t resp) s) else s)"

record reader_env =
  responses :: "(StreamingRecognizeResponse \<times> u64) list"
  finish_status :: "string option"
  now_finish :: u64

definition stream_error_result :: "string \<Rightarrow> u64 \<Rightarrow> DetectionResultWithText" where
  "stream_error_result msg t = out_init
     \<lparr>text' := ''CloudSTT error: '' @ msg,
      result := DETECTION_RESULT_PARTIAL,
      language := ''en'',
      start_timestamp_ms := t, end_timestamp_ms := t\<rparr>"

definition has_stream :: "GoogleSttStreamer \<Rightarrow> bool" where
  "has_stream s = (case impl s of None \<Rightarrow> False | Some i \<Rightarrow> stream i)"

definition resultsThread :: "reader_env \<Rightarrow> GoogleSttStreamer \<Rightarrow> GoogleSttStreamer" where
  "resultsThread env s =
     (if \<not> has_stream s then s
      else
        let s1 = read_loop (responses env) s;
            s2 = (if has_stream s1 then
                    (let s3 = emit [Finish (finish_status env)] s1 in
                       case (finish_status env, gf s3) of
                         (Some msg, Some g) \<Rightarrow>
                            emit [set_text_callback (now_finish env) g
                                    (stream_error_result msg (now_finish env))] s3
                       | _ \<Rightarrow> s3)
                  else s1)
        in s2\<lparr>running := False\<rparr>)"

section \<open>Threads\<close>

text \<open>
  The host's calls, the reader thread and the rotation threads run side by side.  They
  are modelled as interleaved steps on one state.  A step is a whole call of a public
  member function, a run of the reader thread, or one of the three statements of
  \<^verbatim>\<open>doRotate\<close>.  \<open>rotations\<close> lists the rotation threads that exist and have not
  finished, each with the statement it executes next.
\<close>

datatype rot_pc = AtStop | AtStart | AtClear

record system =
  obj :: GoogleSttStreamer
  rotations :: "(tid \<times> rot_pc) list"

fun spawned :: "event list \<Rightarrow> tid list" where
  "spawned [] = []"
| "spawned (SpawnRotator t # es) = t # spawned es"
| "spawned (e # es) = spawned es"

inductive step :: "system \<Rightarrow> system \<Rightarrow> bool" where
  host_push:
    "s' = pushFloat16k other env data (obj \<sigma>) \<Longrightarrow>
     step \<sigma> \<lparr>obj = s',
              rotations = rotations \<sigma> @ map (\<lambda>t. (t, AtStop)) (spawned (new_effects (obj \<sigma>) s'))\<rparr>"
| host_start:
    "start env key lang (obj \<sigma>) = Some (ok, s') \<Longrightarrow>
     step \<sigma> \<lparr>obj = s', rotations = rotations \<sigma>\<rparr>"
| host_stop:
    "step \<sigma> \<lparr>obj = stop (obj \<sigma>), rotations = rotations \<sigma>\<rparr>"
| reader_run:
    "step \<sigma> \<lparr>obj = resultsThread renv (obj \<sigma>), rotations = rotations \<sigma>\<rparr>"
| rot_stop:
    "rotations \<sigma> = pre @ (t, AtStop) # post \<Longrightarrow>
     step \<sigma> \<lparr>obj = stop (obj \<sigma>), rotations = pre @ (t, AtStart) # post\<rparr>"
| rot_start:
    "rotations \<sigma> = pre @ (t, AtStart) # post \<Longrightarrow>
     start env (api_key (obj \<sigma>)) (language_code (obj \<sigma>)) (obj \<sigma>) = Some (ok, s') \<Longrightarrow>
     step \<sigma> \<lparr>obj = s', rotations = pre @ (t, AtClear) # post\<rparr>"
| rot_clear:
    "rotations \<sigma> = pre @ (t, AtClear) # post \<Longrightarrow>
     step \<sigma> \<lparr>obj = clear_rotating (obj \<sigma>), rotations = pre @ post\<rparr>"

inductive reachable :: "system \<Rightarrow> bool" where
  reach_init: "reachable \<lparr>obj = GoogleSttStreamer_init g, rotations = []\<rparr>"
| reach_step: "reachable \<sigma> \<Longrightarrow> step \<sigma> \<sigma>' \<Longrightarrow> reachable \<sigma>'"

text \<open>A run of calls of \<^verbatim>\<open>requestRotate\<close>, in the order of their compare-and-exchange.\<close>

fun request_all :: "(tid \<times> tid) list \<Rightarrow> GoogleSttStreamer \<Rightarrow> GoogleSttStreamer" where
  "request_all [] s = s"
| "request_all ((self, new) # rs) s = request_all rs (requestRotate self new s)"

text \<open>
  The invariant of the rotation flag: at most one rotation thread exists, and the flag is
  set exactly while one exists.
\<close>

definition one_rotation :: "system \<Rightarrow> bool" where
  "one_rotation \<sigma> = (length (rotations \<sigma>) \<le> 1 \<and> (rotating (obj \<sigma>) \<longleftrightarrow> rotations \<sigma> \<noteq> []))"

section \<open>Example inputs\<close>

text \<open>
  A fresh client without host after a successful \<^verbatim>\<open>start("key", "en")\<close> at clock 0, a
  host whose only language setting is the base language, and calls of
  \<^verbatim>\<open>pushFloat16k\<close>: 200 samples of silence at clock 1000 with every write succeeding,
  1600 samples with every write failing, and one sample at clock 300000, past the rotation
  interval.
\<close>

definition example_start_env :: start_env where
  "example_start_env =
     \<lparr>now_start = 0, stream_created = True, config_write_ok = True, now_error = 0\<rparr>"

definition example_session :: GoogleSttStreamer where
  "example_session =
     (GoogleSttStreamer_init None)
       \<lparr>reader := True, running := True,
        impl := Some \<lparr>stream = True, metadata = [(''x-goog-api-key'', ''key'')]\<rparr>,
        language_code := ''en'', api_key := ''key'',
        effects := [Write (cfgReq ''en'') True, SpawnReader]\<rparr>"

definition example_host :: transcription_filter_data where
  "example_host = \<lparr>cloud_transcription_language = [], whisper_params_language = Some ''de''\<rparr>"

definition example_push :: "push_env \<times> f32 list option" where
  "example_push =
     (\<lparr>now = 1000, caller = 0, new_thread = 1, write_ok = (\<lambda>k. True)\<rparr>, Some (replicate 200 0))"

definition example_failing_env :: push_env where
  "example_failing_env = \<lparr>now = 1000, caller = 0, new_thread = 1, write_ok = (\<lambda>k. False)\<rparr>"

definition example_late_env :: push_env where
  "example_late_env = \<lparr>now = 300000, caller = 0, new_thread = 7, write_ok = (\<lambda>k. True)\<rparr>"

text \<open>\<open>example_session\<close> after the late call has requested the rotation.\<close>

definition example_rotating :: GoogleSttStreamer where
  "example_rotating =
     example_session\<lparr>rotating := True, rotator := Some 7,
       effects := [Write (cfgReq ''en'') True, SpawnReader, SpawnRotator 7]\<rparr>"

section \<open>Properties of start\<close>

text \<open>
  C10.  Calling \<^verbatim>\<open>start\<close> while the client is already running returns success at once
  and changes nothing: the whole state is the one before the call (so the session, the
  credential, the language and the creation timestamp keep their values), and nothing is
  done to the outside, in particular no reader thread is started.
\<close>

theorem start_running_noop:
  "running s \<Longrightarrow> start env key lang s = Some (True, s)"
  by (simp add: start_def)

theorem start_running_noop_witness:
  "running (GoogleSttStreamer_init None\<lparr>running := True\<rparr>) \<and>
   start \<lparr>now_start = 5, stream_created = True, config_write_ok = True, now_error = 6\<rparr>
     ''key'' ''de'' (GoogleSttStreamer_init None\<lparr>running := True\<rparr>)
   = Some (True, GoogleSttStreamer_init None\<lparr>running := True\<rparr>)"
  using start_running_noop
    [of "GoogleSttStreamer_init None\<lparr>running := True\<rparr>"
        "\<lparr>now_start = 5, stream_created = True, config_write_ok = True, now_error = 6\<rparr>"
        "''key''" "''de''"]
  by (simp add: GoogleSttStreamer_init_def)

text \<open>
  C2, as the code has it.  When the stream is created and the write of the configuration
  fails, \<^verbatim>\<open>start\<close> returns failure, the client is not running, the session object is
  released, no thread is started and the reader thread handle is as the call found it: no
  reader is left where none was before the call.  The
  diagnostic goes to the host only behind the guard \<^verbatim>\<open>if (gf_)\<close> of line 85: with a
  host there is exactly one callback, a \<open>DETECTION_RESULT_PARTIAL\<close> carrying the
  diagnostic text; without a host there is none.
\<close>

theorem start_config_write_fails:
  assumes "\<not> running s" and "stream_created env" and "\<not> config_write_ok env"
  shows "\<exists>s'. start env key lang s = Some (False, s')
           \<and> \<not> running s' \<and> impl s' = None \<and> reader s' = reader s
           \<and> effects s' = effects s @ new_effects s s'
           \<and> SpawnReader \<notin> set (new_effects s s')
           \<and> (gf s \<noteq> None \<longrightarrow> length (callbacks (new_effects s s')) = 1)
           \<and> (gf s = None \<longrightarrow> callbacks (new_effects s s') = [])
           \<and> (\<forall>r \<in> set (callbacks (new_effects s s')).
                 result r = DETECTION_RESULT_PARTIAL
                 \<and> text' r = ''CloudSTT error: failed to write config (check API key/billing).'')"
  using assms
  by (cases "gf s")
     (simp_all add: start_def Let_def emit_def new_effects_def config_error_result_def out_init_def)

theorem start_config_write_fails_witness:
  "start \<lparr>now_start = 5, stream_created = True, config_write_ok = False, now_error = 6\<rparr>
     ''key'' ''de''
     (GoogleSttStreamer_init (Some \<lparr>cloud_transcription_language = ''de'',
                                    whisper_params_language = None\<rparr>))
   = Some (False,
       GoogleSttStreamer_init (Some \<lparr>cloud_transcription_language = ''de'',
                                      whisper_params_language = None\<rparr>)
         \<lparr>language_code := ''de'', api_key := ''key'', start_ms := 5,
          effects :=
            [Write (cfgReq ''de'') False,
             set_text_callback 6
               \<lparr>cloud_transcription_language = ''de'', whisper_params_language = None\<rparr>
               \<lparr>result = DETECTION_RESULT_PARTIAL,
                text' = ''CloudSTT error: failed to write config (check API key/billing).'',
                language = ''en'', start_timestamp_ms = 6, end_timestamp_ms = 6\<rparr>]\<rparr>)"
  using start_config_write_fails
    [of "GoogleSttStreamer_init (Some \<lparr>cloud_transcription_language = ''de'',
                                        whisper_params_language = None\<rparr>)"
        "\<lparr>now_start = 5, stream_created = True, config_write_ok = False, now_error = 6\<rparr>"
        "''key''" "''de''"]
  by (simp add: GoogleSttStreamer_init_def start_def Let_def emit_def
        config_error_result_def out_init_def)

text \<open>
  C7 at a concrete input.  A fresh client whose call of \<^verbatim>\<open>StreamingRecognize\<close> yields no
  stream: \<^verbatim>\<open>start\<close> returns failure, the client is not running and no thread is started
  (the effect log stays empty), but the \<^verbatim>\<open>Impl\<close> object made at line 58 stays in
  \<^verbatim>\<open>impl_\<close>, with channel, stub and client context: the early return of line 68 does
  not reset it, as the failure path of line 94 does.
\<close>

theorem start_no_stream_keeps_impl:
  "start \<lparr>now_start = 5, stream_created = False, config_write_ok = True, now_error = 6\<rparr>
     ''key'' ''de'' (GoogleSttStreamer_init None)
   = Some (False,
       GoogleSttStreamer_init None
         \<lparr>impl := Some \<lparr>stream = False, metadata = [(''x-goog-api-key'', ''key'')]\<rparr>,
          language_code := ''de'', api_key := ''key'', start_ms := 5\<rparr>)"
  by (simp add: GoogleSttStreamer_init_def start_def Let_def)

section \<open>Properties of the audio encoder\<close>

subsection \<open>Rounding\<close>

lemma round_half_even_of_int: "round_half_even (of_int k) = k"
  by (simp add: round_half_even_def)

lemma round_half_even_ge_floor: "\<lfloor>r\<rfloor> \<le> round_half_even r"
  by (simp add: round_half_even_def Let_def)

lemma round_half_even_le_ceil: "round_half_even r \<le> \<lfloor>r\<rfloor> + 1"
  by (simp add: round_half_even_def Let_def)

lemma round_half_even_mono:
  assumes "a \<le> b" shows "round_half_even a \<le> round_half_even b"
proof (cases "\<lfloor>a\<rfloor> = \<lfloor>b\<rfloor>")
  case True
  with assms show ?thesis
    by (auto simp: round_half_even_def Let_def)
next
  case False
  with assms have "\<lfloor>a\<rfloor> + 1 \<le> \<lfloor>b\<rfloor>"
    using floor_mono [of a b] by linarith
  then show ?thesis
    using round_half_even_le_ceil [of a] round_half_even_ge_floor [of b] by linarith
qed

lemma round_half_even_le: "r \<le> of_int k \<Longrightarrow> round_half_even r \<le> k"
  using round_half_even_mono [of r "of_int k"] by (simp add: round_half_even_of_int)

lemma round_half_even_ge: "of_int k \<le> r \<Longrightarrow> k \<le> round_half_even r"
  using round_half_even_mono [of "of_int k" r] by (simp add: round_half_even_of_int)

lemma ulp_exponent_abs: "ulp_exponent (- y) = ulp_exponent y"
  by (simp add: ulp_exponent_def)

lemma ulp_exponent_mono:
  "0 \<le> x \<Longrightarrow> x \<le> y \<Longrightarrow> ulp_exponent x \<le> ulp_exponent y"
proof -
  assume a: "0 \<le> x" "x \<le> y"
  then have "\<lfloor>\<bar>x\<bar> * 2 ^ 149\<rfloor> \<le> \<lfloor>\<bar>y\<bar> * 2 ^ 149\<rfloor>"
    by (intro floor_mono) simp
  then have "bitlen \<lfloor>\<bar>x\<bar> * 2 ^ 149\<rfloor> \<le> bitlen \<lfloor>\<bar>y\<bar> * 2 ^ 149\<rfloor>"
    by (simp add: bitlen_def floorlog_mono)
  then show ?thesis by (simp add: ulp_exponent_def)
qed

lemma powi_shift: "0 \<le> m \<Longrightarrow> (2::real) powi (m - 149) * 2 ^ 149 = 2 ^ nat m"
proof -
  assume m: "0 \<le> m"
  have "(2::real) powi (m - 149) * 2 powi 149 = 2 powi ((m - 149) + 149)"
    by (subst power_int_add) simp_all
  with m show ?thesis by (simp add: power_int_def)
qed

lemma bitlen_upper: "0 \<le> n \<Longrightarrow> n < 2 ^ nat (max (bitlen n) 24)"
proof (cases "n = 0")
  case True then show ?thesis by simp
next
  case False
  assume "0 \<le> n"
  with False have "0 < n" by simp
  then have "n < 2 ^ nat (bitlen n)" using bitlen_bounds by blast
  also have "(2::int) ^ nat (bitlen n) \<le> 2 ^ nat (max (bitlen n) 24)"
    by (intro power_increasing) auto
  finally show ?thesis .
qed

lemma ulp_exponent_upper:
  assumes "0 \<le> y" shows "y < 2 powi (ulp_exponent y + 24)"
proof -
  define n where "n = \<lfloor>y * 2 ^ 149\<rfloor>"
  define m where "m = max (bitlen n) 24"
  have e: "ulp_exponent y + 24 = m - 149"
    using assms by (simp add: ulp_exponent_def n_def m_def)
  have n0: "0 \<le> n" using assms by (simp add: n_def)
  have "n + 1 \<le> 2 ^ nat m" using bitlen_upper [OF n0] by (simp add: m_def)
  then have "real_of_int (n + 1) \<le> real_of_int (2 ^ nat m)" by (rule of_int_le_iff [THEN iffD2])
  moreover have "y * 2 ^ 149 < real_of_int (n + 1)" unfolding n_def by linarith
  ultimately have "y * 2 ^ 149 < 2 ^ nat m" by simp
  also have "\<dots> = 2 powi (m - 149) * 2 ^ 149"
    by (rule powi_shift [symmetric]) (simp add: m_def)
  finally have "y < 2 powi (m - 149)" by simp
  then show ?thesis by (simp only: e)
qed

lemma ulp_exponent_lower:
  assumes "0 \<le> y" and "- 149 < ulp_exponent y"
  shows "2 powi (ulp_exponent y + 23) \<le> y"
proof -
  define n where "n = \<lfloor>y * 2 ^ 149\<rfloor>"
  have b: "24 < bitlen n" and e: "ulp_exponent y + 23 = (bitlen n - 1) - 149"
    using assms by (auto simp: ulp_exponent_def n_def max_def split: if_splits)
  have "0 < n" using b bitlen_alt_def [of n] by (auto split: if_splits)
  then have "2 ^ nat (bitlen n - 1) \<le> n" using bitlen_bounds by blast
  then have "real_of_int (2 ^ nat (bitlen n - 1)) \<le> real_of_int n" by (rule of_int_le_iff [THEN iffD2])
  moreover have "real_of_int n \<le> y * 2 ^ 149" unfolding n_def by linarith
  moreover have "real_of_int (2 ^ nat (bitlen n - 1)) = 2 ^ nat (bitlen n - 1)" by simp
  ultimately have "(2::real) ^ nat (bitlen n - 1) \<le> y * 2 ^ 149" by (simp only:)
  moreover have "(2::real) ^ nat (bitlen n - 1) = 2 powi ((bitlen n - 1) - 149) * 2 ^ 149"
    by (rule powi_shift [symmetric]) (use b in simp)
  ultimately have "2 powi ((bitlen n - 1) - 149) * 2 ^ 149 \<le> y * 2 ^ 149" by (simp only:)
  then have "2 powi ((bitlen n - 1) - 149) \<le> y" by simp
  then show ?thesis by (simp only: e)
qed

lemma ulp_exponent_ge: "- 149 \<le> ulp_exponent y"
  by (simp add: ulp_exponent_def)

lemma rnd32_nonneg_eq:
  "0 \<le> y \<Longrightarrow> rnd32 y = of_int (round_half_even (y / 2 powi ulp_exponent y)) * 2 powi ulp_exponent y"
  by (cases "y = 0") (simp_all add: rnd32_def Let_def round_half_even_def)

lemma rnd32_minus: "rnd32 (- y) = - rnd32 y"
  by (simp add: rnd32_def Let_def ulp_exponent_abs sgn_minus)

lemma rnd32_upper:
  assumes "0 \<le> y" shows "rnd32 y \<le> 2 powi (ulp_exponent y + 24)"
proof -
  let ?e = "ulp_exponent y"
  have p: "(0::real) < 2 powi ?e" by simp
  have "y / 2 powi ?e \<le> 2 powi (?e + 24) / 2 powi ?e"
    using ulp_exponent_upper [OF assms] p by (simp add: divide_right_mono)
  also have "\<dots> = 2 ^ 24" by (simp add: power_int_add)
  finally have "y / 2 powi ?e \<le> real_of_int (2 ^ 24)" by simp
  then have "round_half_even (y / 2 powi ?e) \<le> 2 ^ 24" by (rule round_half_even_le)
  then have "real_of_int (round_half_even (y / 2 powi ?e)) \<le> 2 ^ 24"
    using of_int_le_iff [where ?'a = real, of "round_half_even (y / 2 powi ?e)" "2 ^ 24"] by simp
  then have "real_of_int (round_half_even (y / 2 powi ?e)) * 2 powi ?e \<le> 2 ^ 24 * 2 powi ?e"
    using p by (simp add: mult_right_mono)
  also have "\<dots> = 2 powi (?e + 24)" by (simp add: power_int_add)
  finally show ?thesis by (simp only: rnd32_nonneg_eq [OF assms])
qed

lemma rnd32_lower:
  assumes "0 \<le> y" and "- 149 < ulp_exponent y"
  shows "2 powi (ulp_exponent y + 23) \<le> rnd32 y"
proof -
  let ?e = "ulp_exponent y"
  have p: "(0::real) < 2 powi ?e" by simp
  have "2 powi (?e + 23) / 2 powi ?e \<le> y / 2 powi ?e"
    using ulp_exponent_lower [OF assms] p by (simp add: divide_right_mono)
  moreover have "2 powi (?e + 23) / 2 powi ?e = (2::real) ^ 23" by (simp add: power_int_add)
  ultimately have "real_of_int (2 ^ 23) \<le> y / 2 powi ?e" by simp
  then have "2 ^ 23 \<le> round_half_even (y / 2 powi ?e)" by (rule round_half_even_ge)
  then have "2 ^ 23 \<le> real_of_int (round_half_even (y / 2 powi ?e))"
    using of_int_le_iff [where ?'a = real, of "2 ^ 23" "round_half_even (y / 2 powi ?e)"] by simp
  then have "2 ^ 23 * 2 powi ?e \<le> real_of_int (round_half_even (y / 2 powi ?e)) * 2 powi ?e"
    using p by (simp add: mult_right_mono)
  moreover have "2 ^ 23 * 2 powi ?e = (2::real) powi (?e + 23)" by (simp add: power_int_add)
  ultimately have "2 powi (?e + 23) \<le> real_of_int (round_half_even (y / 2 powi ?e)) * 2 powi ?e"
    by (simp only:)
  then show ?thesis by (simp only: rnd32_nonneg_eq [OF assms(1)])
qed

lemma rnd32_nonneg: "0 \<le> y \<Longrightarrow> 0 \<le> rnd32 y"
proof -
  assume y: "0 \<le> y"
  have "0 \<le> y / 2 powi ulp_exponent y" using y by simp
  then have "0 \<le> round_half_even (y / 2 powi ulp_exponent y)"
    using round_half_even_ge [of 0] by simp
  then show ?thesis using y by (simp add: rnd32_nonneg_eq)
qed

lemma rnd32_mono_nonneg:
  assumes "0 \<le> x" and "x \<le> y" shows "rnd32 x \<le> rnd32 y"
proof (cases "ulp_exponent x = ulp_exponent y")
  case True
  have "x / 2 powi ulp_exponent y \<le> y / 2 powi ulp_exponent y"
    using assms by (simp add: divide_right_mono)
  then have "round_half_even (x / 2 powi ulp_exponent y) \<le> round_half_even (y / 2 powi ulp_exponent y)"
    by (rule round_half_even_mono)
  then have "real_of_int (round_half_even (x / 2 powi ulp_exponent y)) * 2 powi ulp_exponent y
      \<le> real_of_int (round_half_even (y / 2 powi ulp_exponent y)) * 2 powi ulp_exponent y"
    by (simp add: mult_right_mono)
  with True assms show ?thesis by (simp add: rnd32_nonneg_eq)
next
  case False
  with ulp_exponent_mono [OF assms] have lt: "ulp_exponent x < ulp_exponent y" by simp
  have y: "0 \<le> y" using assms by simp
  have "- 149 < ulp_exponent y" using lt ulp_exponent_ge [of x] by linarith
  then have "2 powi (ulp_exponent y + 23) \<le> rnd32 y" by (rule rnd32_lower [OF y])
  moreover have "rnd32 x \<le> 2 powi (ulp_exponent x + 24)" by (rule rnd32_upper [OF assms(1)])
  moreover have "(2::real) powi (ulp_exponent x + 24) \<le> 2 powi (ulp_exponent y + 23)"
    using lt by (intro power_int_increasing) auto
  ultimately show ?thesis by linarith
qed

lemma rnd32_mono: "x \<le> y \<Longrightarrow> rnd32 x \<le> rnd32 y"
proof -
  assume xy: "x \<le> y"
  consider "0 \<le> x" | "y \<le> 0" | "x < 0" "0 < y" by linarith
  then show ?thesis
  proof cases
    case 1 then show ?thesis using xy by (rule rnd32_mono_nonneg)
  next
    case 2
    then have "rnd32 (- y) \<le> rnd32 (- x)" using xy by (intro rnd32_mono_nonneg) auto
    then show ?thesis by (simp add: rnd32_minus)
  next
    case 3
    then have "0 \<le> rnd32 (- x)" "0 \<le> rnd32 y" by (auto intro: rnd32_nonneg)
    then show ?thesis by (simp add: rnd32_minus)
  qed
qed

lemma rnd32_32767: "rnd32 32767 = 32767"
proof -
  have "ulp_exponent 32767 = - 9"
    by (simp add: ulp_exponent_def bitlen_def compute_floorlog)
  then show ?thesis
    by (simp add: rnd32_def round_half_even_def)
qed

lemma round_half_away_mono:
  assumes "a \<le> b" shows "round_half_away a \<le> round_half_away b"
proof -
  consider "0 \<le> a" | "b < 0" | "a < 0" "0 \<le> b" by linarith
  then show ?thesis
  proof cases
    case 1
    then have "\<lfloor>a + 1 / 2\<rfloor> \<le> \<lfloor>b + 1 / 2\<rfloor>" using assms by (intro floor_mono) simp
    with 1 assms show ?thesis by (simp add: round_half_away_def)
  next
    case 2
    then have "\<lfloor>- b + 1 / 2\<rfloor> \<le> \<lfloor>- a + 1 / 2\<rfloor>" using assms by (intro floor_mono) simp
    with 2 assms show ?thesis by (simp add: round_half_away_def)
  next
    case 3
    then have "0 \<le> \<lfloor>b + 1 / 2\<rfloor>" "0 \<le> \<lfloor>- a + 1 / 2\<rfloor>" by simp_all
    then have "- \<lfloor>- a + 1 / 2\<rfloor> \<le> \<lfloor>b + 1 / 2\<rfloor>" by linarith
    with 3 show ?thesis by (simp only: round_half_away_def) simp
  qed
qed

lemma round_half_away_of_int: "round_half_away (of_int k) = k"
proof -
  have "\<lfloor>real_of_int k + 1 / 2\<rfloor> = k" "\<lfloor>- real_of_int k + 1 / 2\<rfloor> = - k" by linarith+
  then show ?thesis by (simp add: round_half_away_def)
qed




lemma enc_int_mono: "a \<le> b \<Longrightarrow> enc_int a \<le> enc_int b"
  unfolding enc_int_def by (intro round_half_away_mono rnd32_mono) simp

lemma enc_int_one: "enc_int 1 = 32767"
  using round_half_away_of_int [of 32767] by (simp add: enc_int_def rnd32_32767)

lemma enc_int_minus_one: "enc_int (- 1) = - 32767"
  using round_half_away_of_int [of "- 32767"] rnd32_minus [of 32767]
  by (simp add: enc_int_def rnd32_32767)

lemma enc_int_bounds:
  assumes "- 1 \<le> r" and "r \<le> 1" shows "- 32767 \<le> enc_int r \<and> enc_int r \<le> 32767"
  using enc_int_mono [OF assms(1)] enc_int_mono [OF assms(2)]
  by (simp add: enc_int_one enc_int_minus_one)

lemma rnd32_small:
  assumes "- 1 \<le> r" and "r \<le> 1" shows "\<bar>rnd32 (r * 32767)\<bar> \<le> 32767"
proof -
  have "rnd32 (r * 32767) \<le> rnd32 32767" using assms by (intro rnd32_mono) simp
  moreover have "rnd32 (- 32767) \<le> rnd32 (r * 32767)" using assms by (intro rnd32_mono) simp
  ultimately show ?thesis by (simp add: rnd32_minus rnd32_32767)
qed

lemma cl_bounds: "- 1 \<le> cl v \<and> cl v \<le> 1"
  by (cases v) (auto simp: cl_def)

lemma f32_to_s16_eq:
  assumes "valof x \<noteq> NaN"
  shows "f32_to_s16 other x = word_of_int (enc_int (cl (valof x)))"
proof -
  define r where "r = cl (valof x)"
  have r: "- 1 \<le> r" "r \<le> 1" using cl_bounds [of "valof x"] by (simp_all add: r_def)
  have x2: "(let x0 = valof x;
          x1 = (if fval_less (Finite 1) x0 then Finite 1 else x0)
      in (if fval_less x1 (Finite (- 1)) then Finite (- 1) else x1)) = Finite r"
    using assms by (cases "valof x") (auto simp: r_def cl_def Let_def)
  have small: "\<bar>rnd32 (r * 32767)\<bar> \<le> 32767" using r by (rule rnd32_small)
  then have m: "fmul (Finite r) (Finite 32767) = Finite (rnd32 (r * 32767))"
    by (simp add: fround_def Let_def)
  have "- 32767 \<le> enc_int r \<and> enc_int r \<le> 32767" using r by (rule enc_int_bounds)
  then have "lroundf other (Finite (rnd32 (r * 32767))) = enc_int r"
    by (simp add: lroundf_def enc_int_def)
  with x2 m show ?thesis
    by (simp add: f32_to_s16_def Let_def r_def)
qed














section \<open>Properties of pushFloat16k\<close>

subsection \<open>The two loops\<close>

lemma CHUNK_pos: "0 < CHUNK" by (simp add: CHUNK_def)

lemma frames_of_short: "length xs < CHUNK \<Longrightarrow> frames_of xs = []"
  by (simp add: frames_of_def)

lemma frames_of_step:
  assumes "CHUNK \<le> length xs"
  shows "frames_of xs = take CHUNK xs # frames_of (drop CHUNK xs)"
proof -
  have q: "length xs div CHUNK = Suc ((length xs - CHUNK) div CHUNK)"
    using assms CHUNK_pos by (simp add: le_div_geq)
  have "[0 ..< Suc ((length xs - CHUNK) div CHUNK)] = 0 # map Suc [0 ..< (length xs - CHUNK) div CHUNK]"
    by (simp add: upt_conv_Cons map_Suc_upt del: upt_Suc)
  then show ?thesis
    by (simp add: frames_of_def q add.commute del: upt_Suc)
qed

lemma drain_eq:
  "drain other p cs sent =
     (drop (CHUNK * (length p div CHUNK)) p,
      cs @ map (map (f32_to_s16 other)) (frames_of p),
      sent + of_nat (CHUNK * (length p div CHUNK)))"
proof (induction other p cs sent rule: drain.induct)
  case (1 other p cs sent)
  show ?case
  proof (cases "CHUNK \<le> length p")
    case True
    have q: "length p div CHUNK = Suc ((length p - CHUNK) div CHUNK)"
      using True CHUNK_pos by (simp add: le_div_geq)
    have d: "drain other p cs sent = drain other (drop CHUNK p)
             (cs @ [map (f32_to_s16 other) (take CHUNK p)])
             (sent + of_nat CHUNK)"
      using True by (subst drain.simps) simp
    show ?thesis
      unfolding d 1 [OF True] q frames_of_step [OF True]
      by (simp add: add.commute add.assoc)
  next
    case False
    have d: "drain other p cs sent = (p, cs, sent)"
      using False by (subst drain.simps) simp
    from False show ?thesis
      unfolding d by (simp add: frames_of_short)
  qed
qed

lemma send_chunks_pending: "pending (send_chunks w k cs s) = pending s"
  by (induction w k cs s rule: send_chunks.induct) (simp_all add: emit_def split: option.splits)

lemma send_chunks_sent_samples: "sent_samples (send_chunks w k cs s) = sent_samples s"
  by (induction w k cs s rule: send_chunks.induct) (simp_all add: emit_def split: option.splits)

lemma send_chunks_rotating: "rotating (send_chunks w k cs s) = rotating s"
  by (induction w k cs s rule: send_chunks.induct) (simp_all add: emit_def split: option.splits)

lemma has_stream_emit: "has_stream (emit es s) = has_stream s"
  by (simp add: has_stream_def emit_def)

lemma emit_emit: "emit es' (emit es s) = emit (es @ es') s"
  by (simp add: emit_def)

lemma send_chunks_step:
  "has_stream s \<Longrightarrow> w k \<Longrightarrow>
   send_chunks w k (c # cs) s = send_chunks w (Suc k) cs (emit [Write (audio_content c) True] s)"
  by (auto simp: has_stream_def split: option.splits)

lemma send_chunks_stop:
  "has_stream s \<Longrightarrow> \<not> w k \<Longrightarrow>
   send_chunks w k (c # cs) s = (emit [Write (audio_content c) False] s)\<lparr>running := False\<rparr>"
  by (auto simp: has_stream_def split: option.splits)

lemma send_chunks_all_ok:
  "has_stream s \<Longrightarrow> \<forall>j < length cs. w (k + j) \<Longrightarrow>
   send_chunks w k cs s = emit (map (\<lambda>c. Write (audio_content c) True) cs) s"
proof (induction cs arbitrary: k s)
  case Nil
  then show ?case by (simp add: emit_def)
next
  case (Cons c cs)
  from Cons.prems(2) have w0: "w k" and wr: "\<forall>j < length cs. w (Suc k + j)" by auto
  have "send_chunks w (Suc k) cs (emit [Write (audio_content c) True] s)
        = emit (map (\<lambda>c. Write (audio_content c) True) cs) (emit [Write (audio_content c) True] s)"
    using Cons.prems(1) wr by (intro Cons.IH) (simp_all add: has_stream_emit)
  then show ?case
    by (simp only: send_chunks_step [where w = w and k = k, OF Cons.prems(1) w0] emit_emit) simp
qed

lemma send_chunks_fail:
  "has_stream s \<Longrightarrow> j < length cs \<Longrightarrow> \<forall>i < j. w (k + i) \<Longrightarrow> \<not> w (k + j) \<Longrightarrow>
   send_chunks w k cs s =
     (emit (map (\<lambda>c. Write (audio_content c) True) (take j cs)
            @ [Write (audio_content (cs ! j)) False]) s)\<lparr>running := False\<rparr>"
proof (induction cs arbitrary: k s j)
  case Nil
  then show ?case by simp
next
  case (Cons c cs)
  show ?case
  proof (cases j)
    case 0
    with Cons.prems(4) have wk: "\<not> w k" by simp
    show ?thesis
      using 0 by (simp only: send_chunks_stop [where w = w and k = k, OF Cons.prems(1) wk]) simp
  next
    case (Suc j')
    with Cons.prems have w0: "w k" and wr: "\<forall>i < j'. w (Suc k + i)" and wf: "\<not> w (Suc k + j')"
      and j': "j' < length cs" by auto
    have "send_chunks w (Suc k) cs (emit [Write (audio_content c) True] s)
        = (emit (map (\<lambda>c. Write (audio_content c) True) (take j' cs)
            @ [Write (audio_content (cs ! j')) False]) (emit [Write (audio_content c) True] s))\<lparr>running := False\<rparr>"
      using Cons.prems(1) j' wr wf by (intro Cons.IH) (simp_all add: has_stream_emit)
    then show ?thesis
      using Suc by (simp only: send_chunks_step [where w = w and k = k, OF Cons.prems(1) w0] emit_emit) simp
  qed
qed

lemma send_chunks_no_stream:
  "\<not> has_stream s \<Longrightarrow> cs \<noteq> [] \<Longrightarrow> send_chunks w k cs s = s\<lparr>running := False\<rparr>"
  by (cases cs) (auto simp: has_stream_def split: option.splits)

subsection \<open>One call\<close>

lemma push_unfold:
  assumes "running s" and "xs \<noteq> []" and "\<not> rotating s" and "\<not> shouldRotate (now env) s"
  shows "pushFloat16k other env (Some xs) s =
           send_chunks (write_ok env) 0
             (map (map (f32_to_s16 other)) (frames_of (pending s @ xs))) (drained other xs s)"
  using assms by (simp add: pushFloat16k_def drain_eq drained_def)

lemma has_stream_drained: "has_stream (drained other xs s) = has_stream s"
  by (simp add: has_stream_def drained_def)

lemma push_ok:
  assumes "running s" and "xs \<noteq> []" and "\<not> rotating s" and "\<not> shouldRotate (now env) s"
    and "has_stream s" and "\<forall>k. write_ok env k"
  shows "pushFloat16k other env (Some xs) s =
           emit (audio_writes other (pending s @ xs)) (drained other xs s)"
proof -
  have "send_chunks (write_ok env) 0
          (map (map (f32_to_s16 other)) (frames_of (pending s @ xs))) (drained other xs s)
        = emit (map (\<lambda>c. Write (audio_content c) True)
                  (map (map (f32_to_s16 other)) (frames_of (pending s @ xs)))) (drained other xs s)"
    using assms(5,6) by (intro send_chunks_all_ok) (simp_all add: has_stream_drained)
  then show ?thesis
    by (simp add: push_unfold [OF assms(1-4)] audio_writes_def comp_def)
qed

lemma length_frames_of: "length (frames_of xs) = length xs div CHUNK"
  by (simp add: frames_of_def)

lemma drop_rest:
  "drop (CHUNK * (length (drop (CHUNK * (length as div CHUNK)) as @ rs) div CHUNK))
     (drop (CHUNK * (length as div CHUNK)) as @ rs)
   = drop (CHUNK * (length (as @ rs) div CHUNK)) (as @ rs)"
proof -
  define q where "q = length as div CHUNK"
  define r where "r = length as mod CHUNK"
  define q2 where "q2 = (r + length rs) div CHUNK"
  have len: "length as = CHUNK * q + r" by (simp add: q_def r_def)
  have n: "length (as @ rs) div CHUNK = q + q2"
    using CHUNK_pos by (simp add: len q2_def add.assoc)
  have n2: "length (drop (CHUNK * q) as @ rs) div CHUNK = q2"
    by (simp add: len q2_def)
  have "drop (CHUNK * q2) (drop (CHUNK * q) as @ rs) = drop (CHUNK * q2) (drop (CHUNK * q) (as @ rs))"
    by (simp add: len)
  also have "\<dots> = drop (CHUNK * (q + q2)) (as @ rs)"
    by (simp only: drop_drop distrib_left add.commute)
  finally show ?thesis
    unfolding n n2 q_def [symmetric] .
qed

subsection \<open>Frames of a growing sample sequence\<close>

lemma frames_of_append:
  "frames_of (as @ rs) =
     frames_of as @ frames_of (drop (CHUNK * (length as div CHUNK)) as @ rs)"
proof -
  define q where "q = length as div CHUNK"
  define r where "r = length as mod CHUNK"
  define q2 where "q2 = (r + length rs) div CHUNK"
  have len: "length as = CHUNK * q + r" by (simp add: q_def r_def)
  have r: "r < CHUNK" using CHUNK_pos by (simp add: r_def)
  have n: "length (as @ rs) div CHUNK = q + q2"
    using CHUNK_pos by (simp add: len q2_def add.assoc)
  have n2: "length (drop (CHUNK * q) as @ rs) div CHUNK = q2"
    by (simp add: len q2_def)
  have "[0 ..< q + q2] = [0 ..< q] @ [q ..< q + q2]"
    using upt_add_eq_append [of 0 q q2] by simp
  moreover have "map (\<lambda>j. j + q) [0 ..< q2] = [q ..< q + q2]"
    using map_add_upt [of q q2] by (simp only: add.commute)
  ultimately have split: "[0 ..< q + q2] = [0 ..< q] @ map (\<lambda>j. j + q) [0 ..< q2]"
    by (simp only:)
  have a: "take CHUNK (drop (i * CHUNK) (as @ rs)) = take CHUNK (drop (i * CHUNK) as)" if "i < q" for i
  proof -
    from that have "Suc i * CHUNK \<le> q * CHUNK" by (intro mult_le_mono1) simp
    then have "i * CHUNK + CHUNK \<le> length as" by (simp add: len mult.commute)
    then show ?thesis by simp
  qed
  have b: "take CHUNK (drop ((j + q) * CHUNK) (as @ rs))
           = take CHUNK (drop (j * CHUNK) (drop (CHUNK * q) as @ rs))" for j
  proof -
    have "(j + q) * CHUNK = j * CHUNK + CHUNK * q" by (simp add: algebra_simps)
    then have "drop ((j + q) * CHUNK) (as @ rs) = drop (j * CHUNK) (drop (CHUNK * q) (as @ rs))"
      by (simp only: drop_drop)
    also have "drop (CHUNK * q) (as @ rs) = drop (CHUNK * q) as @ rs"
      by (simp add: len)
    finally show ?thesis by simp
  qed
  have A: "map (\<lambda>i. take CHUNK (drop (i * CHUNK) (as @ rs))) [0 ..< q]
           = map (\<lambda>i. take CHUNK (drop (i * CHUNK) as)) [0 ..< q]"
    by (rule map_cong [OF refl]) (simp only: a atLeastLessThan_iff set_upt)
  have B: "map (\<lambda>i. take CHUNK (drop (i * CHUNK) (as @ rs))) (map (\<lambda>j. j + q) [0 ..< q2])
           = map (\<lambda>j. take CHUNK (drop (j * CHUNK) (drop (CHUNK * q) as @ rs))) [0 ..< q2]"
    by (simp only: map_map comp_def b)
  show ?thesis
    unfolding frames_of_def n n2 q_def [symmetric] split map_append A B ..
qed

lemma div_split:
  "length (as @ rs) div CHUNK
   = length as div CHUNK + length (drop (CHUNK * (length as div CHUNK)) as @ rs) div CHUNK"
proof -
  define q where "q = length as div CHUNK"
  define r where "r = length as mod CHUNK"
  have len: "length as = CHUNK * q + r" by (simp add: q_def r_def)
  have "length (as @ rs) div CHUNK = q + (r + length rs) div CHUNK"
    using CHUNK_pos by (simp add: len add.assoc)
  moreover have "length (drop (CHUNK * q) as @ rs) div CHUNK = (r + length rs) div CHUNK"
    by (simp add: len)
  ultimately show ?thesis
    unfolding q_def [symmetric] by (simp only:)
qed

lemma after_pushes_nil: "length (pending s) < CHUNK \<Longrightarrow> after_pushes other [] s = s"
  by (simp add: after_pushes_def drained_def audio_writes_def frames_of_short emit_def)

lemma after_pushes_append:
  "after_pushes other rs (after_pushes other xs s) = after_pushes other (xs @ rs) s"
proof -
  let ?A = "pending s @ xs"
  have p: "pending (after_pushes other xs s) = drop (CHUNK * (length ?A div CHUNK)) ?A"
    by (simp add: after_pushes_def drained_def emit_def)
  have "audio_writes other (?A @ rs)
        = audio_writes other ?A @ audio_writes other (drop (CHUNK * (length ?A div CHUNK)) ?A @ rs)"
    unfolding audio_writes_def frames_of_append [of ?A rs] by simp
  moreover have "(of_nat (CHUNK * (length (?A @ rs) div CHUNK)) :: u64)
        = of_nat (CHUNK * (length ?A div CHUNK))
          + of_nat (CHUNK * (length (drop (CHUNK * (length ?A div CHUNK)) ?A @ rs) div CHUNK))"
    by (subst div_split [of ?A rs]) (simp only: distrib_left of_nat_add)
  ultimately show ?thesis
    using drop_rest [of ?A rs]
    unfolding after_pushes_def [of other rs] drained_def [of other rs] p
    by (simp add: after_pushes_def drained_def emit_def add.assoc)
qed

subsection \<open>A sequence of calls\<close>

lemma push_one:
  assumes "running s" and "\<not> rotating s" and "\<not> shouldRotate (now env) s"
    and "has_stream s" and "\<forall>k. write_ok env k" and "length (pending s) < CHUNK"
  shows "pushFloat16k other env (Some xs) s = after_pushes other xs s"
proof (cases "xs = []")
  case True
  then show ?thesis using assms(6) by (simp add: pushFloat16k_def after_pushes_nil)
next
  case False
  then show ?thesis using assms(1-5) by (simp add: push_ok after_pushes_def)
qed

lemma length_drop_chunks:
  "length (drop (CHUNK * (length zs div CHUNK)) zs) = length zs mod CHUNK"
  by (simp add: minus_mult_div_eq_mod)

lemma pending_after_pushes:
  "pending (after_pushes other xs s)
   = drop (CHUNK * (length (pending s @ xs) div CHUNK)) (pending s @ xs)"
  by (simp add: after_pushes_def drained_def emit_def)

lemma effects_after_pushes:
  "effects (after_pushes other xs s) = effects s @ audio_writes other (pending s @ xs)"
  by (simp add: after_pushes_def drained_def emit_def)

lemma after_pushes_fields:
  "running (after_pushes other xs s) = running s"
  "rotating (after_pushes other xs s) = rotating s"
  "has_stream (after_pushes other xs s) = has_stream s"
  "shouldRotate t (after_pushes other xs s) = shouldRotate t s"
  by (simp_all add: after_pushes_def drained_def emit_def has_stream_def shouldRotate_def)

lemma after_pushes_short: "length (pending (after_pushes other xs s)) < CHUNK"
  using CHUNK_pos by (simp only: pending_after_pushes length_drop_chunks mod_less_divisor)

lemma push_all_eq:
  assumes "running s" and "\<not> rotating s" and "has_stream s" and "length (pending s) < CHUNK"
    and "\<forall>(env, data) \<in> set calls. \<not> shouldRotate (now env) s \<and> (\<forall>k. write_ok env k)"
  shows "push_all other calls s = after_pushes other (pushed calls) s"
  using assms
proof (induction calls arbitrary: s)
  case Nil
  then show ?case by (simp add: after_pushes_nil)
next
  case (Cons call calls)
  obtain env data where call: "call = (env, data)" by (cases call)
  from Cons.prems(5) call have here: "\<not> shouldRotate (now env) s" "\<forall>k. write_ok env k"
    and rest: "\<forall>(env, data) \<in> set calls. \<not> shouldRotate (now env) s \<and> (\<forall>k. write_ok env k)"
    by auto
  show ?case
  proof (cases data)
    case None
    then have "push_all other (call # calls) s = push_all other calls s"
      by (simp add: call pushFloat16k_def)
    also have "\<dots> = after_pushes other (pushed calls) s"
      using Cons.prems(1-4) rest by (rule Cons.IH)
    finally show ?thesis by (simp add: call None)
  next
    case (Some xs)
    let ?s1 = "after_pushes other xs s"
    have "push_all other (call # calls) s = push_all other calls ?s1"
      using push_one [OF Cons.prems(1,2) here(1) Cons.prems(3) here(2) Cons.prems(4)]
      by (simp add: call Some)
    also have "\<dots> = after_pushes other (pushed calls) ?s1"
      using Cons.prems(1-3) rest
      by (intro Cons.IH) (simp_all add: after_pushes_fields after_pushes_short)
    finally show ?thesis by (simp add: call Some after_pushes_append)
  qed
qed

text \<open>
  C1, the general statement.  Take a client that is running, not rotating, holds a stream
  and has less than a chunk buffered, and any sequence of calls of \<^verbatim>\<open>pushFloat16k\<close>
  during which no rotation falls due and every write succeeds.  Then the frames written
  are the successive 1600-sample chunks of the buffered samples followed by the pushed
  ones, in that order, encoded sample by sample; their number is the total sample count
  divided by 1600; and the remainder of the division is what stays in the buffer, namely
  the last samples pushed.
\<close>

theorem push_all_frames:
  assumes "running s" and "\<not> rotating s" and "has_stream s" and "length (pending s) < CHUNK"
    and "\<forall>(env, data) \<in> set calls. \<not> shouldRotate (now env) s \<and> (\<forall>k. write_ok env k)"
  shows "new_effects s (push_all other calls s) = audio_writes other (pending s @ pushed calls)
    \<and> length (new_effects s (push_all other calls s)) = length (pending s @ pushed calls) div CHUNK
    \<and> pending (push_all other calls s)
        = drop (CHUNK * (length (pending s @ pushed calls) div CHUNK)) (pending s @ pushed calls)
    \<and> length (pending (push_all other calls s)) = length (pending s @ pushed calls) mod CHUNK
    \<and> running (push_all other calls s) \<and> \<not> rotating (push_all other calls s)"
proof -
  let ?s' = "after_pushes other (pushed calls) s"
  let ?total = "pending s @ pushed calls"
  have e: "new_effects s ?s' = audio_writes other ?total"
    by (simp add: new_effects_def effects_after_pushes)
  have n: "length (audio_writes other ?total) = length ?total div CHUNK"
    by (simp only: audio_writes_def length_map length_frames_of)
  have l: "length (pending ?s') = length ?total mod CHUNK"
    by (simp only: pending_after_pushes length_drop_chunks)
  show ?thesis
    unfolding push_all_eq [OF assms] e n l pending_after_pushes after_pushes_fields
    using assms(1,2) by (simp only: length_drop_chunks simp_thms)
qed

subsection \<open>Calls that do nothing\<close>

lemma push_not_running: "\<not> running s \<Longrightarrow> pushFloat16k other env data s = s"
  by (simp add: pushFloat16k_def split: option.splits)

lemma push_all_not_running: "\<not> running s \<Longrightarrow> push_all other calls s = s"
  by (induction calls) (auto simp: push_not_running)

lemma push_nothing:
  "\<not> running s \<or> data = None \<or> data = Some [] \<Longrightarrow> pushFloat16k other env data s = s"
  by (auto simp: pushFloat16k_def split: option.splits)

lemma push_rotating: "rotating s \<Longrightarrow> pushFloat16k other env data s = s"
  by (simp add: pushFloat16k_def requestRotate_def split: option.splits)

lemma requestRotate_fields:
  "pending (requestRotate self new s) = pending s"
  "sent_samples (requestRotate self new s) = sent_samples s"
  "running (requestRotate self new s) = running s"
  "impl (requestRotate self new s) = impl s"
  by (simp_all add: requestRotate_def emit_def Let_def split: option.splits)

lemma requestRotate_rotating: "rotating (requestRotate self new s)"
  by (simp add: requestRotate_def emit_def Let_def split: option.splits)

lemma requestRotate_effects:
  "\<not> rotating s \<Longrightarrow>
   new_effects s (requestRotate self new s) =
     (case rotator s of None \<Rightarrow> []
      | Some r \<Rightarrow> if self \<noteq> r then [JoinRotator r] else [DetachRotator r]) @ [SpawnRotator new]"
  by (simp add: requestRotate_def emit_def Let_def new_effects_def split: option.splits)

lemma push_should_rotate:
  assumes "shouldRotate (now env) s"
  shows "pushFloat16k other env data s = s
       \<or> (\<not> rotating s \<and> pushFloat16k other env data s = requestRotate (caller env) (new_thread env) s)"
proof (cases "rotating s")
  case True
  then show ?thesis by (simp add: push_rotating)
next
  case False
  then show ?thesis
    using assms requestRotate_rotating [of "caller env" "new_thread env" s]
    by (simp add: pushFloat16k_def split: option.splits)
qed

lemma new_effects_self: "new_effects s s = []"
  by (simp add: new_effects_def)

text \<open>
  C8.  A call of \<^verbatim>\<open>pushFloat16k\<close> leaves the client exactly as it was (buffer, log of
  effects and all) when the client is not running, the pointer is null or the count is
  zero, and also when a rotation is in flight at the call.  When the rotation interval has
  passed, the call requests the rotation if none is in flight, and in either case drops its
  samples: the buffer and the counter are unchanged, nothing is written and nothing is
  called back.
\<close>

theorem push_noop_or_dropped:
  "(\<not> running s \<or> data = None \<or> data = Some [] \<longrightarrow> pushFloat16k other env data s = s)
   \<and> (rotating s \<longrightarrow> pushFloat16k other env data s = s)
   \<and> (shouldRotate (now env) s \<longrightarrow>
        pending (pushFloat16k other env data s) = pending s
        \<and> sent_samples (pushFloat16k other env data s) = sent_samples s
        \<and> written (new_effects s (pushFloat16k other env data s)) = []
        \<and> callbacks (new_effects s (pushFloat16k other env data s)) = [])"
proof (intro conjI impI)
  assume "\<not> running s \<or> data = None \<or> data = Some []"
  then show "pushFloat16k other env data s = s" by (rule push_nothing)
next
  assume "rotating s"
  then show "pushFloat16k other env data s = s" by (rule push_rotating)
next
  assume r: "shouldRotate (now env) s"
  let ?s' = "pushFloat16k other env data s"
  from push_should_rotate [OF r, of other data]
  consider "?s' = s" | "\<not> rotating s" "?s' = requestRotate (caller env) (new_thread env) s"
    by blast
  then have "pending ?s' = pending s \<and> sent_samples ?s' = sent_samples s
      \<and> written (new_effects s ?s') = [] \<and> callbacks (new_effects s ?s') = []"
  proof cases
    case 1
    then show ?thesis by (simp add: new_effects_self)
  next
    case 2
    then show ?thesis
      by (simp add: requestRotate_fields requestRotate_effects split: option.splits)
  qed
  then show "pending ?s' = pending s" "sent_samples ?s' = sent_samples s"
    "written (new_effects s ?s') = []" "callbacks (new_effects s ?s') = []"
    by simp_all
qed

text \<open>
  At \<open>example_session\<close>: with a rotation in flight the late call changes nothing; without
  one it requests the rotation, starting thread 7, and drops its sample.
\<close>

lemma example_late_rotates:
  "pushFloat16k other example_late_env (Some [0]) example_session
   = example_session\<lparr>rotating := True, rotator := Some 7,
       effects := [Write (cfgReq ''en'') True, SpawnReader, SpawnRotator 7]\<rparr>"
  by (simp add: pushFloat16k_def example_late_env_def example_session_def GoogleSttStreamer_init_def
        shouldRotate_def requestRotate_def Let_def emit_def)

theorem push_noop_or_dropped_witness:
  "pushFloat16k (\<lambda>v. 0) example_late_env None (example_session\<lparr>rotating := True\<rparr>)
     = example_session\<lparr>rotating := True\<rparr>
   \<and> shouldRotate (now example_late_env) example_session
   \<and> pushFloat16k (\<lambda>v. 0) example_late_env (Some [0]) example_session
     = example_session\<lparr>rotating := True, rotator := Some 7,
         effects := [Write (cfgReq ''en'') True, SpawnReader, SpawnRotator 7]\<rparr>
   \<and> pending (pushFloat16k (\<lambda>v. 0) example_late_env (Some [0]) example_session) = []
   \<and> written (new_effects example_session
         (pushFloat16k (\<lambda>v. 0) example_late_env (Some [0]) example_session)) = []"
  using push_noop_or_dropped [of "example_session\<lparr>rotating := True\<rparr>" None "\<lambda>v. 0" example_late_env]
    push_noop_or_dropped [of example_session "Some [0]" "\<lambda>v. 0" example_late_env]
  by (simp add: example_late_rotates)
     (simp add: example_session_def example_late_env_def shouldRotate_def
        GoogleSttStreamer_init_def)

subsection \<open>Failing writes\<close>

lemma drained_fields:
  "effects (drained other xs s) = effects s"
  "running (drained other xs s) = running s"
  by (simp_all add: drained_def)

text \<open>
  C9.  In \<^verbatim>\<open>pushFloat16k\<close> the loop that drains the buffer and counts the chunks
  (\<open>drain\<close>) has finished before the first write is tried (\<open>send_chunks\<close>).  So for every
  outcome of the writes, and with or without a session handle, the call leaves in the
  buffer only what follows the last whole chunk, less than a chunk, and the counter has
  grown by 1600 for every chunk drained.  In particular, when the stream is absent no
  write is tried at all, the client marks itself not running, and the drained chunks are
  neither written nor buffered.
\<close>

theorem push_drained_chunks_lost:
  assumes "running s" and "xs \<noteq> []" and "\<not> rotating s" and "\<not> shouldRotate (now env) s"
  shows "pending (pushFloat16k other env (Some xs) s)
           = drop (CHUNK * (length (pending s @ xs) div CHUNK)) (pending s @ xs)
       \<and> length (pending (pushFloat16k other env (Some xs) s)) < CHUNK
       \<and> sent_samples (pushFloat16k other env (Some xs) s)
           = sent_samples s + of_nat (CHUNK * (length (pending s @ xs) div CHUNK))
       \<and> (\<not> has_stream s \<and> CHUNK \<le> length (pending s @ xs) \<longrightarrow>
             new_effects s (pushFloat16k other env (Some xs) s) = []
             \<and> \<not> running (pushFloat16k other env (Some xs) s))"
proof -
  let ?total = "pending s @ xs"
  let ?s' = "pushFloat16k other env (Some xs) s"
  have p: "pending ?s' = drop (CHUNK * (length ?total div CHUNK)) ?total"
    by (simp add: push_unfold [OF assms] send_chunks_pending drained_def)
  have l: "length (pending ?s') < CHUNK"
    using CHUNK_pos by (simp only: p length_drop_chunks mod_less_divisor)
  have c: "sent_samples ?s' = sent_samples s + of_nat (CHUNK * (length ?total div CHUNK))"
    by (simp add: push_unfold [OF assms] send_chunks_sent_samples drained_def)
  have n: "new_effects s ?s' = [] \<and> \<not> running ?s'"
    if "\<not> has_stream s" and "CHUNK \<le> length ?total"
  proof -
    from that(2) have "frames_of ?total \<noteq> []"
      by (simp add: frames_of_step)
    then have "map (map (f32_to_s16 other)) (frames_of ?total) \<noteq> []" by simp
    moreover have "\<not> has_stream (drained other xs s)"
      using that(1) by (simp add: has_stream_drained)
    ultimately have "?s' = (drained other xs s)\<lparr>running := False\<rparr>"
      unfolding push_unfold [OF assms] by (intro send_chunks_no_stream)
    then show ?thesis by (simp add: new_effects_def drained_fields)
  qed
  from p l c n show ?thesis by blast
qed

text \<open>
  At \<open>example_session\<close> with its session object taken away (as a concurrent \<^verbatim>\<open>stop\<close>
  does): a call with 1600 samples empties the buffer and counts them, yet writes nothing.
\<close>

theorem push_drained_chunks_lost_witness:
  "running (example_session\<lparr>impl := None\<rparr>) \<and> \<not> rotating (example_session\<lparr>impl := None\<rparr>)
   \<and> \<not> shouldRotate (now example_failing_env) (example_session\<lparr>impl := None\<rparr>)
   \<and> \<not> has_stream (example_session\<lparr>impl := None\<rparr>)
   \<and> pending (pushFloat16k (\<lambda>v. 0) example_failing_env (Some (replicate 1600 0))
                 (example_session\<lparr>impl := None\<rparr>)) = []
   \<and> sent_samples (pushFloat16k (\<lambda>v. 0) example_failing_env (Some (replicate 1600 0))
                 (example_session\<lparr>impl := None\<rparr>)) = 1600
   \<and> new_effects (example_session\<lparr>impl := None\<rparr>)
         (pushFloat16k (\<lambda>v. 0) example_failing_env (Some (replicate 1600 0))
                 (example_session\<lparr>impl := None\<rparr>)) = []
   \<and> \<not> running (pushFloat16k (\<lambda>v. 0) example_failing_env (Some (replicate 1600 0))
                 (example_session\<lparr>impl := None\<rparr>))"
proof -
  have h: "running (example_session\<lparr>impl := None\<rparr>)" "replicate 1600 (0 :: f32) \<noteq> []"
    "\<not> rotating (example_session\<lparr>impl := None\<rparr>)"
    "\<not> shouldRotate (now example_failing_env) (example_session\<lparr>impl := None\<rparr>)"
    by (simp_all add: example_session_def example_failing_env_def shouldRotate_def
          GoogleSttStreamer_init_def)
  have n: "\<not> has_stream (example_session\<lparr>impl := None\<rparr>)"
    "pending (example_session\<lparr>impl := None\<rparr>) = []"
    "sent_samples (example_session\<lparr>impl := None\<rparr>) = 0"
    by (simp_all add: has_stream_def example_session_def GoogleSttStreamer_init_def)
  from push_drained_chunks_lost [OF h, of "\<lambda>v. 0"] h n show ?thesis
    by (simp add: CHUNK_def)
qed

text \<open>
  C6.  If the write of frame number \<open>j\<close> of a call fails, after \<open>j\<close> successful writes,
  the client is not running afterwards; the call has tried exactly these \<open>j + 1\<close> writes,
  the failed one once and none after it; and every later call of \<^verbatim>\<open>pushFloat16k\<close>, and
  every sequence of them, leaves the client as it is: nothing more is written and no
  rotation is requested.
\<close>

theorem push_write_failure:
  assumes "running s" and "xs \<noteq> []" and "\<not> rotating s" and "\<not> shouldRotate (now env) s"
    and "has_stream s" and "j < length (pending s @ xs) div CHUNK"
    and "\<forall>i < j. write_ok env i" and "\<not> write_ok env j"
  shows "\<not> running (pushFloat16k other env (Some xs) s)
       \<and> new_effects s (pushFloat16k other env (Some xs) s)
           = take j (audio_writes other (pending s @ xs))
             @ [Write (audio_content (map (f32_to_s16 other) (frames_of (pending s @ xs) ! j))) False]
       \<and> (\<forall>env' data'. pushFloat16k other env' data' (pushFloat16k other env (Some xs) s)
             = pushFloat16k other env (Some xs) s)
       \<and> (\<forall>calls. push_all other calls (pushFloat16k other env (Some xs) s)
             = pushFloat16k other env (Some xs) s)"
proof -
  let ?total = "pending s @ xs"
  let ?cs = "map (map (f32_to_s16 other)) (frames_of ?total)"
  let ?s' = "pushFloat16k other env (Some xs) s"
  have j: "j < length ?cs" using assms(6) by (simp add: length_frames_of)
  have w: "\<forall>i < j. write_ok env (0 + i)" "\<not> write_ok env (0 + j)" using assms(7,8) by simp_all
  have hs: "has_stream (drained other xs s)" using assms(5) by (simp add: has_stream_drained)
  have s': "?s' = (emit (map (\<lambda>c. Write (audio_content c) True) (take j ?cs)
            @ [Write (audio_content (?cs ! j)) False]) (drained other xs s))\<lparr>running := False\<rparr>"
    unfolding push_unfold [OF assms(1-4)] by (rule send_chunks_fail [OF hs j w])
  have r: "\<not> running ?s'" by (subst s') simp
  have "?cs ! j = map (f32_to_s16 other) (frames_of ?total ! j)"
    using j by simp
  then have e: "new_effects s ?s' = take j (audio_writes other ?total)
             @ [Write (audio_content (map (f32_to_s16 other) (frames_of ?total ! j))) False]"
    by (subst s') (simp add: new_effects_def emit_def drained_fields audio_writes_def take_map)
  from r e show ?thesis
    by (simp only: push_not_running push_all_not_running simp_thms)
qed

text \<open>
  At \<open>example_session\<close>: a call with 1600 samples of silence whose write fails tries that
  one write, leaves the client not running, and the next call does nothing.
\<close>

lemma f32_to_s16_zero: "f32_to_s16 other 0 = 0"
proof -
  have "valof 0 = Finite 0" by (simp add: valof_def)
  then show ?thesis
    by (simp add: f32_to_s16_eq cl_def enc_int_def rnd32_def round_half_away_def)
qed

lemma frames_of_one_chunk: "frames_of (replicate 1600 x) = [replicate 1600 x]"
  by (simp add: frames_of_def CHUNK_def)

theorem push_write_failure_witness:
  "running example_session \<and> \<not> rotating example_session \<and> has_stream example_session
   \<and> \<not> shouldRotate (now example_failing_env) example_session
   \<and> \<not> write_ok example_failing_env 0
   \<and> \<not> running (pushFloat16k (\<lambda>v. 0) example_failing_env (Some (replicate 1600 0)) example_session)
   \<and> new_effects example_session
        (pushFloat16k (\<lambda>v. 0) example_failing_env (Some (replicate 1600 0)) example_session)
      = [Write (audio_content (replicate 1600 0)) False]
   \<and> pushFloat16k (\<lambda>v. 0) (fst example_push) (snd example_push)
        (pushFloat16k (\<lambda>v. 0) example_failing_env (Some (replicate 1600 0)) example_session)
      = pushFloat16k (\<lambda>v. 0) example_failing_env (Some (replicate 1600 0)) example_session"
proof -
  have h: "running example_session" "replicate 1600 (0 :: f32) \<noteq> []"
    "\<not> rotating example_session"
    "\<not> shouldRotate (now example_failing_env) example_session"
    "has_stream example_session"
    "0 < length (pending example_session @ replicate 1600 0) div CHUNK"
    "\<forall>i < 0. write_ok example_failing_env i" "\<not> write_ok example_failing_env 0"
    by (simp_all add: example_session_def example_failing_env_def shouldRotate_def
          GoogleSttStreamer_init_def has_stream_def CHUNK_def)
  have p: "pending example_session = []"
    by (simp add: example_session_def GoogleSttStreamer_init_def)
  from push_write_failure [OF h, of "\<lambda>v. 0"] h(1,3,4,5,8) show ?thesis
    by (simp add: p frames_of_one_chunk f32_to_s16_zero)
qed

subsection \<open>Ten pushes of 200 samples\<close>

lemma pushed_replicate: "pushed (replicate n (env, Some xs)) = concat (replicate n xs)"
  by (induction n) simp_all

lemma example_ok:
  "running example_session" "\<not> rotating example_session" "has_stream example_session"
  "length (pending example_session) < CHUNK"
  "\<forall>(env, data) \<in> set (replicate 10 example_push).
      \<not> shouldRotate (now env) example_session \<and> (\<forall>k. write_ok env k)"
  by (simp_all add: example_session_def example_push_def GoogleSttStreamer_init_def
        has_stream_def CHUNK_def shouldRotate_def)

lemma example_total:
  "length (pending example_session @ pushed (replicate 10 example_push)) = 2000"
  by (simp add: example_session_def example_push_def GoogleSttStreamer_init_def
        pushed_replicate length_concat sum_list_replicate)

text \<open>
  The general statement at ten pushes of 200 samples into the empty buffer of
  \<open>example_session\<close>: one frame is written and 400 samples stay buffered.
\<close>

theorem push_all_frames_witness:
  "running example_session \<and> \<not> rotating example_session \<and> has_stream example_session
   \<and> length (pending example_session) < CHUNK
   \<and> \<not> shouldRotate (now (fst example_push)) example_session
   \<and> length (new_effects example_session
               (push_all (\<lambda>v. 0) (replicate 10 example_push) example_session)) = 1
   \<and> length (pending (push_all (\<lambda>v. 0) (replicate 10 example_push) example_session)) = 400"
proof -
  note t = push_all_frames [OF example_ok, of "\<lambda>v. 0"]
  have "length (new_effects example_session
               (push_all (\<lambda>v. 0) (replicate 10 example_push) example_session)) = 2000 div CHUNK"
    using t [THEN conjunct2, THEN conjunct1] by (simp only: example_total)
  moreover have "length (pending (push_all (\<lambda>v. 0) (replicate 10 example_push) example_session))
        = 2000 mod CHUNK"
    using t [THEN conjunct2, THEN conjunct2, THEN conjunct2, THEN conjunct1]
    by (simp only: example_total)
  ultimately show ?thesis
    using example_ok(1-4)
    by (simp add: CHUNK_def example_push_def example_session_def shouldRotate_def
          GoogleSttStreamer_init_def)
qed

text \<open>
  C1, the example of the claim.  Ten pushes of 200 samples are 2000 samples: after the one
  frame of 1600 the buffer holds 400 samples, not 200.
\<close>

theorem ten_pushes_leave_400:
  "length (pending (push_all (\<lambda>v. 0) (replicate 10 example_push) example_session)) = 400
   \<and> length (pending (push_all (\<lambda>v. 0) (replicate 10 example_push) example_session)) \<noteq> 200"
proof -
  have "length (pending (push_all (\<lambda>v. 0) (replicate 10 example_push) example_session))
        = length (pending example_session @ pushed (replicate 10 example_push)) mod CHUNK"
    by (simp only: push_all_eq [OF example_ok] pending_after_pushes length_drop_chunks)
  then show ?thesis by (simp only: example_total) (simp add: CHUNK_def)
qed

section \<open>Properties of the result consumer\<close>

lemma collect_results_eq:
  "collect_results rs acc fin
   = (acc @ concat (map top_transcript rs), fin \<or> (\<exists>r \<in> set rs. is_final r))"
  by (induction rs arbitrary: acc fin) (auto simp: top_transcript_def split: list.splits)

lemma on_response_None: "on_response None t resp = []"
  by (simp add: on_response_def split: prod.splits)

lemma on_response_Some:
  "on_response (Some g) t resp =
     (if concat (map top_transcript resp) = [] then []
      else [set_text_callback t g
              \<lparr>result = (if \<exists>r \<in> set resp. is_final r then DETECTION_RESULT_SPEECH
                         else DETECTION_RESULT_PARTIAL),
               text' = concat (map top_transcript resp),
               language =
                 (if cloud_transcription_language g \<noteq> [] then cloud_transcription_language g
                  else (case whisper_params_language g of
                          None \<Rightarrow> ''en''
                        | Some l \<Rightarrow> if l = [] then ''en'' else l)),
               start_timestamp_ms = 0, end_timestamp_ms = t\<rparr>])"
  by (simp add: on_response_def collect_results_eq out_init_def split: option.splits)

lemma read_loop_eq:
  "running s \<Longrightarrow>
   read_loop reads s = emit (concat (map (\<lambda>(resp, t). on_response (gf s) t resp) reads)) s"
proof (induction reads arbitrary: s)
  case Nil
  then show ?case by (simp add: emit_def)
next
  case (Cons rd reads)
  obtain resp t where rd: "rd = (resp, t)" by (cases rd)
  let ?s1 = "emit (on_response (gf s) t resp) s"
  have "running ?s1" using Cons.prems by (simp add: emit_def)
  from Cons.IH [OF this] show ?case
    using Cons.prems by (simp add: rd emit_def)
qed

text \<open>
  C4.  What the reader thread does with one response: without a host nothing; with a host
  \<open>g\<close>, nothing if the concatenation of the top transcripts of the results is empty, and
  otherwise one callback with that text, \<open>DETECTION_RESULT_SPEECH\<close> (the final kind) if
  some result is final and \<open>DETECTION_RESULT_PARTIAL\<close> if none is, the language taken
  from \<^verbatim>\<open>cloud_transcription_language\<close>, else from a non-empty
  \<^verbatim>\<open>whisper_params.language\<close>, else \<open>en\<close>, start timestamp 0 and end timestamp the
  clock reading, which is also the first argument of the callback.  The loop does this to
  each response it reads, in order.
\<close>

theorem results_delivery:
  "on_response None t resp = []
   \<and> on_response (Some g) t resp =
       (if concat (map top_transcript resp) = [] then []
        else [set_text_callback t g
                \<lparr>result = (if \<exists>r \<in> set resp. is_final r then DETECTION_RESULT_SPEECH
                           else DETECTION_RESULT_PARTIAL),
                 text' = concat (map top_transcript resp),
                 language =
                   (if cloud_transcription_language g \<noteq> [] then cloud_transcription_language g
                    else (case whisper_params_language g of
                            None \<Rightarrow> ''en''
                          | Some l \<Rightarrow> if l = [] then ''en'' else l)),
                 start_timestamp_ms = 0, end_timestamp_ms = t\<rparr>])
   \<and> (running s \<longrightarrow>
        new_effects s (read_loop reads s)
        = concat (map (\<lambda>(resp, t). on_response (gf s) t resp) reads))"
proof (intro conjI impI)
  show "on_response None t resp = []" by (rule on_response_None)
next
  show "on_response (Some g) t resp =
       (if concat (map top_transcript resp) = [] then []
        else [set_text_callback t g
                \<lparr>result = (if \<exists>r \<in> set resp. is_final r then DETECTION_RESULT_SPEECH
                           else DETECTION_RESULT_PARTIAL),
                 text' = concat (map top_transcript resp),
                 language =
                   (if cloud_transcription_language g \<noteq> [] then cloud_transcription_language g
                    else (case whisper_params_language g of
                            None \<Rightarrow> ''en''
                          | Some l \<Rightarrow> if l = [] then ''en'' else l)),
                 start_timestamp_ms = 0, end_timestamp_ms = t\<rparr>])"
    by (rule on_response_Some)
next
  assume "running s"
  then show "new_effects s (read_loop reads s)
        = concat (map (\<lambda>(resp, t). on_response (gf s) t resp) reads)"
    by (simp add: read_loop_eq new_effects_def emit_def)
qed

theorem results_delivery_witness:
  "running (example_session\<lparr>gf := Some example_host\<rparr>)
   \<and> new_effects (example_session\<lparr>gf := Some example_host\<rparr>)
        (read_loop
           [([\<lparr>alternatives = [''hel'', ''help''], is_final = False\<rparr>], 10),
            ([\<lparr>alternatives = [], is_final = False\<rparr>], 15),
            ([\<lparr>alternatives = [''hello''], is_final = True\<rparr>,
              \<lparr>alternatives = ['' you''], is_final = False\<rparr>], 20)]
           (example_session\<lparr>gf := Some example_host\<rparr>))
     = [set_text_callback 10 example_host
          \<lparr>result = DETECTION_RESULT_PARTIAL, text' = ''hel'', language = ''de'',
           start_timestamp_ms = 0, end_timestamp_ms = 10\<rparr>,
        set_text_callback 20 example_host
          \<lparr>result = DETECTION_RESULT_SPEECH, text' = ''hello you'', language = ''de'',
           start_timestamp_ms = 0, end_timestamp_ms = 20\<rparr>]"
  using results_delivery
    [of 10 "[\<lparr>alternatives = [''hel'', ''help''], is_final = False\<rparr>]" example_host
        "example_session\<lparr>gf := Some example_host\<rparr>"
        "[([\<lparr>alternatives = [''hel'', ''help''], is_final = False\<rparr>], 10),
            ([\<lparr>alternatives = [], is_final = False\<rparr>], 15),
            ([\<lparr>alternatives = [''hello''], is_final = True\<rparr>,
              \<lparr>alternatives = ['' you''], is_final = False\<rparr>], 20)]"]
  by (simp add: example_session_def example_host_def top_transcript_def on_response_Some)

section \<open>Properties of the rotation\<close>

lemma start_rotating: "start env key lang s = Some (ok, s') \<Longrightarrow> rotating s' = rotating s"
  by (auto simp: start_def Let_def emit_def split: if_splits option.splits)

lemma stop_rotating: "rotating (stop s) = rotating s"
  by (simp add: stop_def Let_def emit_def split: option.splits)

lemma stop_fields: "\<not> running (stop s)" "\<not> reader (stop s)"
  by (simp_all add: stop_def Let_def emit_def split: option.splits)

lemma read_loop_rotating: "rotating (read_loop reads s) = rotating s"
  by (induction reads s rule: read_loop.induct) (simp_all add: emit_def)

lemma resultsThread_rotating: "rotating (resultsThread env s) = rotating s"
  by (simp add: resultsThread_def Let_def emit_def read_loop_rotating split: option.splits prod.splits)

lemma spawned_append: "spawned (es @ es') = spawned es @ spawned es'"
  by (induction es rule: spawned.induct) simp_all

lemma requestRotate_rotating_noop: "rotating s \<Longrightarrow> requestRotate self new s = s"
  by (simp add: requestRotate_def)

lemma requestRotate_spawned:
  "\<not> rotating s \<Longrightarrow> spawned (new_effects s (requestRotate self new s)) = [new]"
  by (simp add: requestRotate_effects spawned_append split: option.splits)

lemma request_all_rotating: "rotating s \<Longrightarrow> request_all rs s = s"
  by (induction rs) (auto simp: requestRotate_rotating_noop)

lemma send_chunks_effects:
  "\<exists>ws. effects (send_chunks w k cs s0) = effects s0 @ ws \<and> spawned ws = []"
proof (induction w k cs s0 rule: send_chunks.induct)
  case (1 w k s)
  then show ?case by simp
next
  case (2 w k c cs s)
  show ?case
  proof (cases "has_stream s \<and> w k")
    case True
    then have hs: "has_stream s" and wk: "w k" by simp_all
    then obtain i where i: "impl s = Some i" "stream i"
      by (auto simp: has_stream_def split: option.splits)
    from 2 [OF i(1) _ _] i wk obtain ws where
      "effects (send_chunks w (Suc k) cs (emit [Write (audio_content c) True] s))
         = effects (emit [Write (audio_content c) True] s) @ ws" "spawned ws = []"
      by auto
    then have "effects (send_chunks w k (c # cs) s) = effects s @ (Write (audio_content c) True # ws)
               \<and> spawned (Write (audio_content c) True # ws) = []"
      by (simp only: send_chunks_step [where w = w and k = k, OF hs wk]) (simp add: emit_def)
    then show ?thesis by blast
  next
    case False
    then have "effects (send_chunks w k (c # cs) s) = effects s @ []
               \<or> effects (send_chunks w k (c # cs) s) = effects s @ [Write (audio_content c) False]"
      by (auto simp: has_stream_def emit_def split: option.splits)
    then show ?thesis by (elim disjE) (rule exI, rule conjI, assumption, simp)+
  qed
qed

lemma push_spawn:
  "(spawned (new_effects s (pushFloat16k other env data s)) = []
      \<and> rotating (pushFloat16k other env data s) = rotating s)
   \<or> (\<not> rotating s \<and> rotating (pushFloat16k other env data s)
      \<and> spawned (new_effects s (pushFloat16k other env data s)) = [new_thread env])"
proof -
  let ?s' = "pushFloat16k other env data s"
  consider "?s' = s" | "\<not> rotating s" "?s' = requestRotate (caller env) (new_thread env) s"
    | xs where "running s" "data = Some xs" "xs \<noteq> []" "\<not> rotating s" "\<not> shouldRotate (now env) s"
    using push_rotating [of s other env data] push_should_rotate [of env s other data]
      push_nothing [of s data other env]
    by (cases data) auto
  then show ?thesis
  proof cases
    case 1
    then show ?thesis by (simp add: new_effects_self)
  next
    case 2
    then show ?thesis by (simp add: requestRotate_spawned requestRotate_rotating)
  next
    case 3
    obtain ws where "effects ?s' = effects (drained other xs s) @ ws" "spawned ws = []"
      unfolding 3(2) push_unfold [OF 3(1,3,4,5)] using send_chunks_effects by blast
    then have "spawned (new_effects s ?s') = []"
      by (simp add: new_effects_def drained_fields)
    moreover have "rotating ?s' = rotating s"
      unfolding 3(2) push_unfold [OF 3(1,3,4,5)] by (simp add: send_chunks_rotating drained_def)
    ultimately show ?thesis by simp
  qed
qed

lemma singleton_split: "length xs \<le> 1 \<Longrightarrow> xs = pre @ x # post \<Longrightarrow> pre = [] \<and> post = []"
  by (cases pre; cases post) auto

lemma step_one_rotation:
  assumes "step \<sigma> \<sigma>'" and "one_rotation \<sigma>"
  shows "one_rotation \<sigma>'"
  using assms
proof (cases rule: step.cases)
  case (host_push s' other env data)
  from push_spawn [of "obj \<sigma>" other env data] host_push assms(2) show ?thesis
    by (auto simp: one_rotation_def)
next
  case (host_start env key lang ok s')
  with assms(2) start_rotating [of env key lang "obj \<sigma>" ok s'] show ?thesis
    by (simp add: one_rotation_def)
next
  case host_stop
  with assms(2) show ?thesis by (simp add: one_rotation_def stop_rotating)
next
  case (reader_run renv)
  with assms(2) show ?thesis by (simp add: one_rotation_def resultsThread_rotating)
next
  case (rot_stop pre t post)
  with assms(2) show ?thesis by (simp add: one_rotation_def stop_rotating)
next
  case (rot_start pre t post env ok s')
  with assms(2) start_rotating [of env "api_key (obj \<sigma>)" "language_code (obj \<sigma>)" "obj \<sigma>" ok s']
  show ?thesis by (simp add: one_rotation_def)
next
  case (rot_clear pre t post)
  with assms(2) have "length (rotations \<sigma>) \<le> 1" by (simp add: one_rotation_def)
  from singleton_split [OF this rot_clear(2)] rot_clear show ?thesis
    by (simp add: one_rotation_def clear_rotating_def)
qed

lemma reachable_one_rotation: "reachable \<sigma> \<Longrightarrow> one_rotation \<sigma>"
proof (induction rule: reachable.induct)
  case (reach_init g)
  show ?case by (simp add: one_rotation_def GoogleSttStreamer_init_def)
next
  case (reach_step \<sigma> \<sigma>')
  then show ?case using step_one_rotation by blast
qed

lemma step_clears:
  assumes "step \<sigma> \<sigma>'" and "rotating (obj \<sigma>)" and "\<not> rotating (obj \<sigma>')"
  shows "\<exists>pre t post. rotations \<sigma> = pre @ (t, AtClear) # post \<and> rotations \<sigma>' = pre @ post
           \<and> obj \<sigma>' = clear_rotating (obj \<sigma>)"
  using assms
proof (cases rule: step.cases)
  case (host_push s' other env data)
  with assms(2,3) show ?thesis by (simp add: push_rotating)
next
  case (host_start env key lang ok s')
  with assms(2,3) start_rotating [of env key lang "obj \<sigma>" ok s'] show ?thesis by simp
next
  case host_stop
  with assms(2,3) show ?thesis by (simp add: stop_rotating)
next
  case (reader_run renv)
  with assms(2,3) show ?thesis by (simp add: resultsThread_rotating)
next
  case (rot_stop pre t post)
  with assms(2,3) show ?thesis by (simp add: stop_rotating)
next
  case (rot_start pre t post env ok s')
  with assms(2,3) start_rotating [of env "api_key (obj \<sigma>)" "language_code (obj \<sigma>)" "obj \<sigma>" ok s']
  show ?thesis by simp
next
  case (rot_clear pre t post)
  then show ?thesis by auto
qed

lemma doRotate_eq:
  "\<exists>ok s2. start env (api_key (stop s)) (language_code (stop s)) (stop s) = Some (ok, s2)
     \<and> doRotate env s = Some (clear_rotating s2) \<and> \<not> rotating (clear_rotating s2)"
proof -
  have "start env (api_key (stop s)) (language_code (stop s)) (stop s) \<noteq> None"
    using stop_fields [of s] by (auto simp: start_def Let_def emit_def split: option.splits)
  then obtain ok s2 where
    "start env (api_key (stop s)) (language_code (stop s)) (stop s) = Some (ok, s2)"
    by (cases "start env (api_key (stop s)) (language_code (stop s)) (stop s)") auto
  then show ?thesis
    by (simp add: doRotate_def Let_def clear_rotating_def)
qed

lemma request_all_first:
  assumes "\<not> rotating s"
  shows "request_all ((self, new) # rs) s = requestRotate self new s"
  by (simp add: request_all_rotating requestRotate_rotating)

text \<open>
  C3.  In every state that the interleaved steps reach from a fresh client, at most one
  rotation thread exists, and the flag is set exactly while one exists.  A call of
  \<^verbatim>\<open>requestRotate\<close> that finds the flag set returns with the client unchanged; one
  that finds it clear sets it and starts exactly one thread, so that of any run of such
  calls only the first has an effect.  A step that clears the flag is the last statement of
  a rotation thread, which has executed \<^verbatim>\<open>stop\<close> and \<^verbatim>\<open>start\<close> before.  And
  \<^verbatim>\<open>doRotate\<close> is \<^verbatim>\<open>stop\<close>, then \<^verbatim>\<open>start\<close> (which returns, with either
  result), then clearing the flag.
\<close>

theorem single_rotation_in_flight:
  "(reachable \<sigma> \<longrightarrow> length (rotations \<sigma>) \<le> 1 \<and> (rotating (obj \<sigma>) \<longleftrightarrow> rotations \<sigma> \<noteq> []))
   \<and> (rotating s1 \<longrightarrow> requestRotate self new s1 = s1)
   \<and> (\<not> rotating s2 \<longrightarrow>
        rotating (requestRotate self new s2)
        \<and> spawned (new_effects s2 (requestRotate self new s2)) = [new]
        \<and> request_all ((self, new) # rs) s2 = requestRotate self new s2)
   \<and> (step \<sigma>1 \<sigma>2 \<and> rotating (obj \<sigma>1) \<and> \<not> rotating (obj \<sigma>2) \<longrightarrow>
        (\<exists>pre t post. rotations \<sigma>1 = pre @ (t, AtClear) # post \<and> rotations \<sigma>2 = pre @ post
           \<and> obj \<sigma>2 = clear_rotating (obj \<sigma>1)))
   \<and> (\<exists>ok s'. start env (api_key (stop s)) (language_code (stop s)) (stop s) = Some (ok, s')
         \<and> doRotate env s = Some (clear_rotating s') \<and> \<not> rotating (clear_rotating s'))"
proof (intro conjI impI)
  assume "reachable \<sigma>"
  then have "one_rotation \<sigma>" by (rule reachable_one_rotation)
  then show "length (rotations \<sigma>) \<le> 1" "rotating (obj \<sigma>) \<longleftrightarrow> rotations \<sigma> \<noteq> []"
    by (simp_all add: one_rotation_def)
next
  assume "rotating s1"
  then show "requestRotate self new s1 = s1" by (rule requestRotate_rotating_noop)
next
  assume n: "\<not> rotating s2"
  show "rotating (requestRotate self new s2)" by (rule requestRotate_rotating)
  show "spawned (new_effects s2 (requestRotate self new s2)) = [new]"
    using n by (rule requestRotate_spawned)
  show "request_all ((self, new) # rs) s2 = requestRotate self new s2"
    using n by (rule request_all_first)
next
  assume "step \<sigma>1 \<sigma>2 \<and> rotating (obj \<sigma>1) \<and> \<not> rotating (obj \<sigma>2)"
  then show "\<exists>pre t post. rotations \<sigma>1 = pre @ (t, AtClear) # post \<and> rotations \<sigma>2 = pre @ post
           \<and> obj \<sigma>2 = clear_rotating (obj \<sigma>1)"
    using step_clears by blast
next
  show "\<exists>ok s'. start env (api_key (stop s)) (language_code (stop s)) (stop s) = Some (ok, s')
         \<and> doRotate env s = Some (clear_rotating s') \<and> \<not> rotating (clear_rotating s')"
    by (rule doRotate_eq)
qed

text \<open>
  At the example: \<open>example_rotating\<close> with rotation thread 7 about to run is reached from
  a fresh client by \<^verbatim>\<open>start\<close> and the late call of \<^verbatim>\<open>pushFloat16k\<close>; of three
  requests in a row only the first starts a thread; and a rotation whose \<^verbatim>\<open>start\<close>
  fails to create the stream still clears the flag.
\<close>

lemma example_session_start:
  "start example_start_env ''key'' ''en'' (GoogleSttStreamer_init None) = Some (True, example_session)"
  by (simp add: start_def example_start_env_def example_session_def GoogleSttStreamer_init_def
        Let_def emit_def)

lemma example_reachable: "reachable \<lparr>obj = example_rotating, rotations = [(7, AtStop)]\<rparr>"
proof -
  let ?\<sigma>0 = "\<lparr>obj = GoogleSttStreamer_init None, rotations = []\<rparr>"
  let ?\<sigma>1 = "\<lparr>obj = example_session, rotations = []\<rparr>"
  have r0: "reachable ?\<sigma>0" by (rule reach_init)
  have "step ?\<sigma>0 \<lparr>obj = example_session, rotations = rotations ?\<sigma>0\<rparr>"
    by (rule host_start [where env = example_start_env and key = "''key''" and lang = "''en''"
          and ok = True]) (simp add: example_session_start)
  then have r1: "reachable ?\<sigma>1" using r0 by (auto intro: reach_step)
  have "step ?\<sigma>1
          \<lparr>obj = pushFloat16k (\<lambda>v. 0) example_late_env (Some [0]) (obj ?\<sigma>1),
           rotations = rotations ?\<sigma>1
             @ map (\<lambda>t. (t, AtStop))
                 (spawned (new_effects (obj ?\<sigma>1)
                    (pushFloat16k (\<lambda>v. 0) example_late_env (Some [0]) (obj ?\<sigma>1))))\<rparr>"
    by (rule host_push) (rule refl)
  moreover have "new_effects example_session example_rotating = [SpawnRotator 7]"
    by (simp add: new_effects_def example_rotating_def example_session_def)
  ultimately have "step ?\<sigma>1 \<lparr>obj = example_rotating, rotations = [(7, AtStop)]\<rparr>"
    by (simp add: example_late_rotates example_rotating_def [symmetric])
  with r1 show ?thesis by (rule reach_step)
qed

lemma example_clear_step:
  "step \<lparr>obj = example_rotating, rotations = [(7, AtClear)]\<rparr>
        \<lparr>obj = clear_rotating example_rotating, rotations = []\<rparr>"
  using rot_clear [of "\<lparr>obj = example_rotating, rotations = [(7, AtClear)]\<rparr>" "[]" 7 "[]"]
  by simp

theorem single_rotation_in_flight_witness:
  "rotating example_rotating \<and> \<not> rotating example_session
   \<and> \<not> rotating (clear_rotating example_rotating)
   \<and> requestRotate 0 8 example_rotating = example_rotating
   \<and> requestRotate 0 7 example_session = example_rotating
   \<and> request_all [(0, 7), (1, 8), (2, 9)] example_session = example_rotating
   \<and> spawned (new_effects example_session (request_all [(0, 7), (1, 8), (2, 9)] example_session)) = [7]
   \<and> length (rotations \<lparr>obj = example_rotating, rotations = [(7, AtStop)]\<rparr>) = 1
   \<and> doRotate (example_start_env\<lparr>stream_created := False\<rparr>) example_rotating
       = Some (example_session
                 \<lparr>reader := False, running := False,
                  impl := Some \<lparr>stream = False, metadata = [(''x-goog-api-key'', ''key'')]\<rparr>,
                  rotator := Some 7,
                  effects := [Write (cfgReq ''en'') True, SpawnReader, SpawnRotator 7,
                              WritesDone, TryCancel, JoinReader]\<rparr>)"
proof -
  note t = single_rotation_in_flight
    [of "\<lparr>obj = example_rotating, rotations = [(7, AtStop)]\<rparr>" example_rotating 0 7
        example_session "[(1, 8), (2, 9)]"
        "\<lparr>obj = example_rotating, rotations = [(7, AtClear)]\<rparr>"
        "\<lparr>obj = clear_rotating example_rotating, rotations = []\<rparr>"
        "example_start_env\<lparr>stream_created := False\<rparr>" example_rotating]
  have r: "rotating example_rotating" "\<not> rotating example_session"
    "\<not> rotating (clear_rotating example_rotating)"
    by (simp_all add: example_rotating_def example_session_def GoogleSttStreamer_init_def
          clear_rotating_def)
  have q: "requestRotate 0 7 example_session = example_rotating"
    by (simp add: requestRotate_def example_rotating_def example_session_def
          GoogleSttStreamer_init_def Let_def emit_def)
  have d: "doRotate (example_start_env\<lparr>stream_created := False\<rparr>) example_rotating
       = Some (example_session
                 \<lparr>reader := False, running := False,
                  impl := Some \<lparr>stream = False, metadata = [(''x-goog-api-key'', ''key'')]\<rparr>,
                  rotator := Some 7,
                  effects := [Write (cfgReq ''en'') True, SpawnReader, SpawnRotator 7,
                              WritesDone, TryCancel, JoinReader]\<rparr>)"
    by (simp add: doRotate_def stop_def start_def clear_rotating_def example_rotating_def
          example_session_def example_start_env_def GoogleSttStreamer_init_def Let_def emit_def)
  from t example_reachable example_clear_step r show ?thesis
    by (simp add: q d requestRotate_rotating_noop)
qed

section \<open>start after a failed write\<close>

text \<open>
  \<open>example_session\<close> after a call of \<^verbatim>\<open>pushFloat16k\<close> whose write failed: the client is
  not running, and the reader thread of the session is still there, since nothing has
  joined it.  The state is reached from a fresh client by \<^verbatim>\<open>start\<close> and that call.
\<close>

lemma example_write_fails:
  "pushFloat16k other example_failing_env (Some (replicate 1600 0)) example_session
   = example_session\<lparr>running := False, sent_samples := 1600,
       effects := [Write (cfgReq ''en'') True, SpawnReader,
                   Write (audio_content (replicate 1600 0)) False]\<rparr>"
proof -
  have h: "running example_session" "replicate 1600 (0 :: f32) \<noteq> []"
    "\<not> rotating example_session"
    "\<not> shouldRotate (now example_failing_env) example_session"
    by (simp_all add: example_session_def example_failing_env_def shouldRotate_def
          GoogleSttStreamer_init_def)
  have p: "pending example_session = []"
    by (simp add: example_session_def GoogleSttStreamer_init_def)
  show ?thesis
    unfolding push_unfold [OF h] p
    by (simp add: frames_of_one_chunk f32_to_s16_zero drained_def emit_def CHUNK_def
          example_session_def example_failing_env_def GoogleSttStreamer_init_def)
qed

lemma example_write_failed_reachable:
  "reachable
     \<lparr>obj = pushFloat16k (\<lambda>v. 0) example_failing_env (Some (replicate 1600 0)) example_session,
      rotations = []\<rparr>"
proof -
  let ?\<sigma>0 = "\<lparr>obj = GoogleSttStreamer_init None, rotations = []\<rparr>"
  let ?\<sigma>1 = "\<lparr>obj = example_session, rotations = []\<rparr>"
  let ?s2 = "pushFloat16k (\<lambda>v. 0) example_failing_env (Some (replicate 1600 0)) example_session"
  have "step ?\<sigma>0 \<lparr>obj = example_session, rotations = rotations ?\<sigma>0\<rparr>"
    by (rule host_start [where env = example_start_env and key = "''key''" and lang = "''en''"
          and ok = True]) (simp add: example_session_start)
  then have r1: "reachable ?\<sigma>1" using reach_init [of None] by (auto intro: reach_step)
  have "step ?\<sigma>1
          \<lparr>obj = pushFloat16k (\<lambda>v. 0) example_failing_env (Some (replicate 1600 0)) (obj ?\<sigma>1),
           rotations = rotations ?\<sigma>1
             @ map (\<lambda>t. (t, AtStop))
                 (spawned (new_effects (obj ?\<sigma>1)
                    (pushFloat16k (\<lambda>v. 0) example_failing_env (Some (replicate 1600 0))
                       (obj ?\<sigma>1))))\<rparr>"
    by (rule host_push) (rule refl)
  moreover have "spawned (new_effects example_session ?s2) = []"
    by (simp only: example_write_fails) (simp add: new_effects_def example_session_def)
  ultimately have "step ?\<sigma>1 \<lparr>obj = ?s2, rotations = []\<rparr>" by simp
  with r1 show ?thesis by (rule reach_step)
qed

text \<open>
  C2 as the claim states it fails at two inputs.  A client constructed without a host
  (\<^verbatim>\<open>gf_ == nullptr\<close>) fails on the configuration write and no result is delivered.
  And a client whose last write of audio failed is not running while its reader thread
  still exists; \<^verbatim>\<open>start\<close> there, failing on the configuration write, returns failure
  and releases the new session object, but does not join that thread: a background reader
  thread is left.
\<close>

theorem start_config_write_fails_counterexamples:
  "map_option (\<lambda>(ok, s'). (ok, callbacks (effects s'), effects s'))
     (start \<lparr>now_start = 5, stream_created = True, config_write_ok = False, now_error = 6\<rparr>
        ''key'' ''de'' (GoogleSttStreamer_init None))
   = Some (False, [], [Write (cfgReq ''de'') False])
   \<and> map_option (\<lambda>(ok, s'). (ok, running s', reader s', impl s'))
     (start \<lparr>now_start = 5, stream_created = True, config_write_ok = False, now_error = 6\<rparr>
        ''key'' ''en''
        (pushFloat16k (\<lambda>v. 0) example_failing_env (Some (replicate 1600 0)) example_session))
   = Some (False, False, True, None)"
proof (rule conjI)
  show "map_option (\<lambda>(ok, s'). (ok, callbacks (effects s'), effects s'))
     (start \<lparr>now_start = 5, stream_created = True, config_write_ok = False, now_error = 6\<rparr>
        ''key'' ''de'' (GoogleSttStreamer_init None))
   = Some (False, [], [Write (cfgReq ''de'') False])"
    by (simp add: GoogleSttStreamer_init_def start_def Let_def emit_def)
next
  show "map_option (\<lambda>(ok, s'). (ok, running s', reader s', impl s'))
     (start \<lparr>now_start = 5, stream_created = True, config_write_ok = False, now_error = 6\<rparr>
        ''key'' ''en''
        (pushFloat16k (\<lambda>v. 0) example_failing_env (Some (replicate 1600 0)) example_session))
   = Some (False, False, True, None)"
    by (simp only: example_write_fails)
       (simp add: GoogleSttStreamer_init_def example_session_def start_def Let_def emit_def)
qed

end
